theory Spec2Isabelle
  imports Main "HOL-Library.AList"
begin

section \<open>Tree model\<close>

text \<open>
  \<^verbatim>\<open>File {path, type: "file"}\<close> and \<^verbatim>\<open>Folder {path, type: "folder", children}\<close> of
  \<^verbatim>\<open>definitions.js\<close>. A JavaScript string is modelled as a \<open>string\<close>; the path functions
  below only ever inspect the two characters \<open>/\<close> and \<open>.\<close>.
\<close>

datatype node = File string | Folder string "node list"

fun path :: "node \<Rightarrow> string" where
  "path (File p) = p"
| "path (Folder p cs) = p"

text \<open>\<^verbatim>\<open>child.type === "folder"\<close> and \<^verbatim>\<open>child.type === "file"\<close>.\<close>

fun isFolder :: "node \<Rightarrow> bool" where
  "isFolder (File p) = False"
| "isFolder (Folder p cs) = True"

fun isFile :: "node \<Rightarrow> bool" where
  "isFile (File p) = True"
| "isFile (Folder p cs) = False"

text \<open>
  \<^verbatim>\<open>node.children\<close>: a File object has no such property, so reading it gives
  \<^verbatim>\<open>undefined\<close> (\<open>None\<close>), and calling a method on that value throws a TypeError.
  A computation that throws is modelled by the result \<open>None\<close>.
\<close>

fun children :: "node \<Rightarrow> node list option" where
  "children (File p) = None"
| "children (Folder p cs) = Some cs"

section \<open>String helpers of the JavaScript runtime\<close>

text \<open>\<^verbatim>\<open>s.lastIndexOf(c)\<close>; \<open>None\<close> stands for \<open>-1\<close>.\<close>

definition lastIndexOf :: "char \<Rightarrow> string \<Rightarrow> nat option" where
  "lastIndexOf c s =
     (if c \<in> set s then Some (length s - 1 - length (takeWhile (\<lambda>x. x \<noteq> c) (rev s)))
      else None)"

text \<open>\<^verbatim>\<open>s.split(c)\<close> for a one-character separator: never the empty array.\<close>

fun split :: "char \<Rightarrow> string \<Rightarrow> string list" where
  "split c [] = [[]]"
| "split c (x # xs) =
     (if x = c then [] # split c xs
      else (case split c xs of [] \<Rightarrow> [[x]] | y # ys \<Rightarrow> (x # y) # ys))"

text \<open>\<^verbatim>\<open>array.at(0)\<close>: \<^verbatim>\<open>undefined\<close> (\<open>None\<close>) on the empty array.\<close>

fun at0 :: "'a list \<Rightarrow> 'a option" where
  "at0 [] = None"
| "at0 (x # xs) = Some x"

text \<open>\<^verbatim>\<open>array.join(s)\<close>.\<close>

fun join_with :: "string \<Rightarrow> string list \<Rightarrow> string" where
  "join_with s [] = []"
| "join_with s [x] = x"
| "join_with s (x # y # ys) = x @ s @ join_with s (y # ys)"

section \<open>The POSIX flavour of \<^verbatim>\<open>node:path\<close>\<close>

text \<open>
  \<^verbatim>\<open>basename(path)\<close>: trailing separators are skipped, the result is the text after
  the last separator in front of them.
\<close>

definition basename :: "string \<Rightarrow> string" where
  "basename p =
     rev (takeWhile (\<lambda>c. c \<noteq> CHR ''/'') (dropWhile (\<lambda>c. c = CHR ''/'') (rev p)))"

text \<open>
  \<^verbatim>\<open>parse(path)\<close>. Node scans the path from its end and never looks at the leading
  separator of an absolute path. \<open>base\<close> is the last component. \<open>dir\<close> is the text in
  front of the separator that precedes \<open>base\<close> (\<open>/\<close> or the empty string when there is
  no such separator). The extension starts at the last dot of \<open>base\<close>, except when
  \<open>base\<close> has no dot, when that dot is its first character, or when \<open>base\<close> is \<open>..\<close>;
  the last exception is missed by Node for a path such as \<open>/..\<close>, where the scan
  stopped at the leading separator.
\<close>

record parsed_path =
  root :: string
  dir :: string
  base :: string
  ext :: string
  name :: string

definition parse :: "string \<Rightarrow> parsed_path" where
  "parse p =
     (let isAbsolute = (p \<noteq> [] \<and> hd p = CHR ''/'');
          scanned = (if isAbsolute then tl p else p);
          r = dropWhile (\<lambda>c. c = CHR ''/'') (rev scanned);
          b = rev (takeWhile (\<lambda>c. c \<noteq> CHR ''/'') r);
          front = dropWhile (\<lambda>c. c \<noteq> CHR ''/'') r;
          stopped = (front \<noteq> []);
          rt = (if isAbsolute then ''/'' else []);
          d = (if stopped then rt @ rev (tl front) else rt);
          noext = (case lastIndexOf CHR ''.'' b of
                     None \<Rightarrow> True
                   | Some k \<Rightarrow> k = 0 \<or> (b = ''..'' \<and> (stopped \<or> \<not> isAbsolute)));
          k = (case lastIndexOf CHR ''.'' b of None \<Rightarrow> 0 | Some k \<Rightarrow> k)
      in \<lparr>root = rt, dir = d, base = b,
          ext = (if noext then [] else drop k b),
          name = (if noext then b else take k b)\<rparr>)"

text \<open>
  \<^verbatim>\<open>normalizeString(path, allowAboveRoot)\<close>: the path is read segment by segment;
  empty segments and \<open>.\<close> are dropped, \<open>..\<close> removes the segment kept last unless
  there is none or it is \<open>..\<close> itself, in which case \<open>..\<close> is kept when the path may
  climb above its root.
\<close>

definition normalize_step :: "bool \<Rightarrow> string list \<Rightarrow> string \<Rightarrow> string list" where
  "normalize_step allowAboveRoot res seg =
     (if seg = [] \<or> seg = ''.'' then res
      else if seg = ''..'' then
        (if res \<noteq> [] \<and> last res \<noteq> ''..'' then butlast res
         else if allowAboveRoot then res @ [''..''] else res)
      else res @ [seg])"

definition normalizeString :: "string \<Rightarrow> bool \<Rightarrow> string" where
  "normalizeString p allowAboveRoot =
     join_with ''/'' (foldl (normalize_step allowAboveRoot) [] (split CHR ''/'' p))"

definition normalize_path :: "string \<Rightarrow> string" where
  "normalize_path p =
     (if p = [] then ''.''
      else
        (let isAbsolute = (hd p = CHR ''/'');
             trailingSeparator = (last p = CHR ''/'');
             q = normalizeString p (\<not> isAbsolute)
         in if q = [] then (if isAbsolute then ''/'' else if trailingSeparator then ''./'' else ''.'')
            else (if isAbsolute then ''/'' else []) @ q @ (if trailingSeparator then ''/'' else [])))"

text \<open>\<^verbatim>\<open>join(...args)\<close>: the non-empty arguments, joined by \<open>/\<close> and normalized.\<close>

definition join :: "string list \<Rightarrow> string" where
  "join args =
     (let parts = filter (\<lambda>a. a \<noteq> []) args
      in if parts = [] then ''.'' else normalize_path (join_with ''/'' parts))"

section \<open>Plain JavaScript objects used as mappings\<close>

text \<open>
  An object is the list of its own enumerable string-keyed properties in order of
  creation. Defining a property that exists replaces its value in place; a new one goes
  last (\<open>AList.update\<close>).
\<close>

type_synonym 'v obj = "(string \<times> 'v) list"

text \<open>\<^verbatim>\<open>Object.fromEntries(entries)\<close>.\<close>

definition fromEntries :: "(string \<times> 'v) list \<Rightarrow> 'v obj" where
  "fromEntries es = foldl (\<lambda>ob (k, v). AList.update k v ob) [] es"

text \<open>
  \<^verbatim>\<open>ob[key] = value\<close> on an object created by \<^verbatim>\<open>{}\<close>: the key \<open>__proto__\<close> is the
  accessor inherited from \<^verbatim>\<open>Object.prototype\<close>, so assigning an object to it replaces the
  prototype and creates no own property. \<open>assign\<close> gives the own properties after the
  assignment when the objects of the tree are ordinary, unfrozen objects; then the
  assignment never throws. \<open>strictAssign\<close> below keeps the prototype as well and covers
  frozen objects, where the assignment can throw.
\<close>

definition assign :: "string \<Rightarrow> 'v \<Rightarrow> 'v obj \<Rightarrow> 'v obj" where
  "assign key v ob = (if key = ''__proto__'' then ob else AList.update key v ob)"

text \<open>
  Property enumeration (\<^verbatim>\<open>Object.entries\<close>, \<^verbatim>\<open>Object.values\<close>, spread): keys that are
  array indices (canonical decimal numerals below \<open>2^32 - 1\<close>) come first, in ascending
  numeric order, then all other keys in order of creation.
\<close>

definition isDigit :: "char \<Rightarrow> bool" where
  "isDigit c = (48 \<le> (of_char c :: int) \<and> (of_char c :: int) \<le> 57)"

definition indexValue :: "string \<Rightarrow> int" where
  "indexValue s = foldl (\<lambda>n c. 10 * n + ((of_char c :: int) - 48)) 0 s"

definition isArrayIndex :: "string \<Rightarrow> bool" where
  "isArrayIndex s =
     (s \<noteq> [] \<and> list_all isDigit s \<and> (s = ''0'' \<or> hd s \<noteq> CHR ''0'') \<and>
      indexValue s < 4294967295)"

definition entries :: "'v obj \<Rightarrow> (string \<times> 'v) list" where
  "entries ob =
     sort_key (\<lambda>e. indexValue (fst e)) (filter (\<lambda>e. isArrayIndex (fst e)) ob) @
     filter (\<lambda>e. \<not> isArrayIndex (fst e)) ob"

definition values_of :: "'v obj \<Rightarrow> 'v list" where
  "values_of ob = map snd (entries ob)"

text \<open>\<^verbatim>\<open>{...a, ...b}\<close>.\<close>

definition spread2 :: "'v obj \<Rightarrow> 'v obj \<Rightarrow> 'v obj" where
  "spread2 a b = fromEntries (entries a @ entries b)"

section \<open>Constants\<close>

text \<open>
  \<^verbatim>\<open>conventionalSegmentNames\<close>, as the earlier version of \<^verbatim>\<open>fsd-aware-traverse.ts\<close>
  declares it.
\<close>

definition conventionalSegmentNames :: "string list" where
  "conventionalSegmentNames = [''ui'', ''api'', ''lib'', ''model'', ''config'']"

text \<open>
  Modelled from the spec: \<^verbatim>\<open>layerSequence\<close> and \<^verbatim>\<open>unslicedLayers\<close>, which the later
  version imports from \<^verbatim>\<open>definitions.js\<close> (not among the sources). The spec gives the six
  layer names in the order \<open>shared, entities, features, widgets, pages, app\<close> and names
  \<open>shared\<close> and \<open>app\<close> as the unsliced layers; the earlier version of the file holds the
  same two lists inline (\<^verbatim>\<open>layerNames\<close> and the literal of \<^verbatim>\<open>isSliced\<close>). The later
  version imports \<^verbatim>\<open>conventionalSegmentNames\<close> from there too; the spec gives the five
  names above for it.
\<close>

definition layerSequence :: "string list" where
  "layerSequence = [''shared'', ''entities'', ''features'', ''widgets'', ''pages'', ''app'']"

definition unslicedLayers :: "string list" where
  "unslicedLayers = [''shared'', ''app'']"

section \<open>Array methods whose callback may throw\<close>

text \<open>\<^verbatim>\<open>array.reduce(f, init)\<close> and \<^verbatim>\<open>array.flatMap(f)\<close>; an exception in the callback
  ends the whole call.\<close>

fun reduce :: "('a \<Rightarrow> 'b \<Rightarrow> 'a option) \<Rightarrow> 'b list \<Rightarrow> 'a \<Rightarrow> 'a option" where
  "reduce f [] acc = Some acc"
| "reduce f (x # xs) acc = (case f acc x of None \<Rightarrow> None | Some acc' \<Rightarrow> reduce f xs acc')"

fun flatMap :: "('a \<Rightarrow> 'b list option) \<Rightarrow> 'a list \<Rightarrow> 'b list option" where
  "flatMap f [] = Some []"
| "flatMap f (x # xs) =
     (case f x of
        None \<Rightarrow> None
      | Some ys \<Rightarrow> (case flatMap f xs of None \<Rightarrow> None | Some zs \<Rightarrow> Some (ys @ zs)))"

section \<open>The classifier (later version of \<^verbatim>\<open>fsd-aware-traverse.ts\<close>)\<close>

definition getLayers :: "node \<Rightarrow> node obj option" where
  "getLayers fsdRoot =
     (case children fsdRoot of
        None \<Rightarrow> None
      | Some cs \<Rightarrow>
          Some (fromEntries
            (map (\<lambda>child. (basename (path child), child))
              (filter (\<lambda>child. isFolder child \<and> basename (path child) \<in> set layerSequence) cs))))"

definition isSlice :: "node \<Rightarrow> string list \<Rightarrow> bool option" where
  "isSlice folder additionalSegmentNames =
     (case children folder of
        None \<Rightarrow> None
      | Some cs \<Rightarrow>
          Some (list_ex
            (\<lambda>child. name (parse (path child)) \<in>
               set (conventionalSegmentNames @ additionalSegmentNames)) cs))"

text \<open>
  The closure \<^verbatim>\<open>traverse\<close> of \<^verbatim>\<open>getSlices\<close>, with the object \<^verbatim>\<open>slices\<close> it mutates
  passed in and returned. \<open>forEachChild\<close> is the loop over the children of a folder
  that calls \<^verbatim>\<open>traverse(child, prefix)\<close> on every child of type folder. On a File
  \<^verbatim>\<open>isSlice\<close> throws.
\<close>

fun traverse :: "string list \<Rightarrow> node \<Rightarrow> string \<Rightarrow> node obj \<Rightarrow> node obj option"
and forEachChild :: "string list \<Rightarrow> node list \<Rightarrow> string \<Rightarrow> node obj \<Rightarrow> node obj option" where
  "traverse extras (File p) pathPrefix slices = None"
| "traverse extras (Folder p cs) pathPrefix slices =
     (case isSlice (Folder p cs) extras of
        None \<Rightarrow> None
      | Some True \<Rightarrow> Some (assign (join [pathPrefix, basename p]) (Folder p cs) slices)
      | Some False \<Rightarrow> forEachChild extras cs (join [pathPrefix, basename p]) slices)"
| "forEachChild extras [] prefix slices = Some slices"
| "forEachChild extras (child # rest) prefix slices =
     (if isFolder child then
        (case traverse extras child prefix slices of
           None \<Rightarrow> None
         | Some slices' \<Rightarrow> forEachChild extras rest prefix slices')
      else forEachChild extras rest prefix slices)"

definition getSlices :: "node \<Rightarrow> string list \<Rightarrow> node obj option" where
  "getSlices slicedLayer additionalSegmentNames =
     (case children slicedLayer of
        None \<Rightarrow> None
      | Some cs \<Rightarrow> forEachChild additionalSegmentNames cs [] [])"

definition isIndex :: "node \<Rightarrow> bool" where
  "isIndex fileOrFolder =
     (if isFile fileOrFolder
      then at0 (split CHR ''.'' (name (parse (path fileOrFolder)))) = Some ''index''
      else False)"

definition getSegments :: "node \<Rightarrow> node obj option" where
  "getSegments sliceOrUnslicedLayer =
     (case children sliceOrUnslicedLayer of
        None \<Rightarrow> None
      | Some cs \<Rightarrow>
          Some (fromEntries
            (map (\<lambda>child. (name (parse (path child)), child))
              (filter (\<lambda>child. \<not> isIndex child) cs))))"

text \<open>The argument of \<^verbatim>\<open>isSliced\<close> is a layer folder or a layer name.\<close>

datatype layerOrName = LayerName string | LayerFolder node

definition isSliced :: "layerOrName \<Rightarrow> bool" where
  "isSliced layerOrName =
     (basename (case layerOrName of LayerName s \<Rightarrow> s | LayerFolder f \<Rightarrow> path f)
        \<notin> set unslicedLayers)"

text \<open>A slice with its added \<^verbatim>\<open>layerName\<close> is the pair of the folder and that name.\<close>

definition getAllSlices :: "node \<Rightarrow> string list \<Rightarrow> (node \<times> string) obj option" where
  "getAllSlices fsdRoot additionalSegmentNames =
     (case getLayers fsdRoot of
        None \<Rightarrow> None
      | Some layers \<Rightarrow>
          reduce
            (\<lambda>slices layer.
               case getSlices layer additionalSegmentNames of
                 None \<Rightarrow> None
               | Some found \<Rightarrow>
                   Some (spread2 slices
                     (fromEntries
                       (map (\<lambda>(nm, slice). (nm, (slice, basename (path layer))))
                         (entries found)))))
            (filter (\<lambda>layer. isSliced (LayerFolder layer)) (values_of layers)) [])"

record segmentInfo =
  segment :: node
  segmentName :: string
  sliceName :: "string option"
  layerName :: string

text \<open>
  The two callbacks of \<^verbatim>\<open>getAllSegments\<close>: the inner one turns one entry of
  \<^verbatim>\<open>getSlices(layer)\<close> into the segments of that slice, the outer one turns one entry
  of \<^verbatim>\<open>getLayers(fsdRoot)\<close> into the segments of that layer.
\<close>

definition sliceSegments :: "string \<Rightarrow> string \<times> node \<Rightarrow> segmentInfo list option" where
  "sliceSegments ln e =
     (case e of (sn, slice) \<Rightarrow>
        (case getSegments slice of
           None \<Rightarrow> None
         | Some segs \<Rightarrow>
             Some (map (\<lambda>(gn, seg).
               \<lparr>segment = seg, segmentName = gn, sliceName = Some sn, layerName = ln\<rparr>)
               (entries segs))))"

definition layerSegments :: "string \<times> node \<Rightarrow> segmentInfo list option" where
  "layerSegments e =
     (case e of (ln, layer) \<Rightarrow>
        if isSliced (LayerFolder layer) then
          (case getSlices layer [] of
             None \<Rightarrow> None
           | Some slices \<Rightarrow> flatMap (sliceSegments ln) (entries slices))
        else
          (case getSegments layer of
             None \<Rightarrow> None
           | Some segs \<Rightarrow>
               Some (map (\<lambda>(gn, seg).
                 \<lparr>segment = seg, segmentName = gn, sliceName = None, layerName = ln\<rparr>)
                 (entries segs))))"

definition getAllSegments :: "node \<Rightarrow> segmentInfo list option" where
  "getAllSegments fsdRoot =
     (case getLayers fsdRoot of
        None \<Rightarrow> None
      | Some layers \<Rightarrow> flatMap layerSegments (entries layers))"

definition getIndexes :: "node \<Rightarrow> node list" where
  "getIndexes fileOrFolder =
     (case fileOrFolder of
        File p \<Rightarrow> [fileOrFolder]
      | Folder p cs \<Rightarrow> filter isIndex cs)"

record crossImport =
  inSlice :: string
  forSlice :: string
  layerPath :: string

definition isCrossImportPublicApi :: "node \<Rightarrow> crossImport \<Rightarrow> bool" where
  "isCrossImportPublicApi f opts =
     (name (parse (path f)) = forSlice opts \<and>
      dir (parse (path f)) = join [layerPath opts, inSlice opts, ''@x''])"

section \<open>The earlier version of \<^verbatim>\<open>isSlice\<close> and \<^verbatim>\<open>getSlices\<close>\<close>

text \<open>
  \<^verbatim>\<open>withoutExtension\<close> cuts a file name at its last dot. The earlier \<^verbatim>\<open>isSlice\<close> applies
  it to the basename of a child; the earlier \<^verbatim>\<open>getSlices\<close> is the same text as the later
  one and calls the earlier \<^verbatim>\<open>isSlice\<close>.
\<close>

definition withoutExtension :: "string \<Rightarrow> string" where
  "withoutExtension filename =
     (case lastIndexOf CHR ''.'' filename of
        None \<Rightarrow> filename
      | Some lastDotIndex \<Rightarrow> take lastDotIndex filename)"

definition isSlice_v1 :: "node \<Rightarrow> string list \<Rightarrow> bool option" where
  "isSlice_v1 folder additionalSegmentNames =
     (case children folder of
        None \<Rightarrow> None
      | Some cs \<Rightarrow>
          Some (list_ex
            (\<lambda>child. withoutExtension (basename (path child)) \<in>
               set (conventionalSegmentNames @ additionalSegmentNames)) cs))"

fun traverse_v1 :: "string list \<Rightarrow> node \<Rightarrow> string \<Rightarrow> node obj \<Rightarrow> node obj option"
and forEachChild_v1 :: "string list \<Rightarrow> node list \<Rightarrow> string \<Rightarrow> node obj \<Rightarrow> node obj option" where
  "traverse_v1 extras (File p) pathPrefix slices = None"
| "traverse_v1 extras (Folder p cs) pathPrefix slices =
     (case isSlice_v1 (Folder p cs) extras of
        None \<Rightarrow> None
      | Some True \<Rightarrow> Some (assign (join [pathPrefix, basename p]) (Folder p cs) slices)
      | Some False \<Rightarrow> forEachChild_v1 extras cs (join [pathPrefix, basename p]) slices)"
| "forEachChild_v1 extras [] prefix slices = Some slices"
| "forEachChild_v1 extras (child # rest) prefix slices =
     (if isFolder child then
        (case traverse_v1 extras child prefix slices of
           None \<Rightarrow> None
         | Some slices' \<Rightarrow> forEachChild_v1 extras rest prefix slices')
      else forEachChild_v1 extras rest prefix slices)"

definition getSlices_v1 :: "node \<Rightarrow> string list \<Rightarrow> node obj option" where
  "getSlices_v1 slicedLayer additionalSegmentNames =
     (case children slicedLayer of
        None \<Rightarrow> None
      | Some cs \<Rightarrow> forEachChild_v1 additionalSegmentNames cs [] [])"

section \<open>Where \<^verbatim>\<open>getSlices\<close> records a folder\<close>

text \<open>
  A position is the list of child indices that leads from a folder down to one of its
  descendants; \<open>nodeAt\<close> follows it.
\<close>

fun nodeAt :: "node \<Rightarrow> nat list \<Rightarrow> node option" where
  "nodeAt n [] = Some n"
| "nodeAt (File p) (i # js) = None"
| "nodeAt (Folder p cs) (i # js) = (if i < length cs then nodeAt (cs ! i) js else None)"

text \<open>
  The same walk as \<open>traverse\<close> and \<open>forEachChild\<close>, listing every assignment
  \<^verbatim>\<open>slices[key] = folder\<close> in the order in which it happens, with the position of the
  folder relative to the node the walk started from. \<open>sitesOfChildren\<close> takes the index
  of the first child of its list.
\<close>

definition atChild :: "nat \<Rightarrow> nat list \<times> string \<times> node \<Rightarrow> nat list \<times> string \<times> node" where
  "atChild i s = (case s of (pos, key, f) \<Rightarrow> (i # pos, key, f))"

fun sites :: "string list \<Rightarrow> node \<Rightarrow> string \<Rightarrow> (nat list \<times> string \<times> node) list"
and sitesOfChildren ::
  "string list \<Rightarrow> node list \<Rightarrow> string \<Rightarrow> nat \<Rightarrow> (nat list \<times> string \<times> node) list" where
  "sites extras (File p) pathPrefix = []"
| "sites extras (Folder p cs) pathPrefix =
     (if isSlice (Folder p cs) extras = Some True
      then [([], join [pathPrefix, basename p], Folder p cs)]
      else sitesOfChildren extras cs (join [pathPrefix, basename p]) 0)"
| "sitesOfChildren extras [] prefix i = []"
| "sitesOfChildren extras (child # rest) prefix i =
     (if isFolder child then map (atChild i) (sites extras child prefix) else []) @
     sitesOfChildren extras rest prefix (Suc i)"

definition sliceSites :: "node \<Rightarrow> string list \<Rightarrow> (nat list \<times> string \<times> node) list" where
  "sliceSites slicedLayer extras =
     (case children slicedLayer of None \<Rightarrow> [] | Some cs \<Rightarrow> sitesOfChildren extras cs [] 0)"

text \<open>The object that a list of such assignments builds from \<^verbatim>\<open>{}\<close>.\<close>

definition recordSite :: "node obj \<Rightarrow> nat list \<times> string \<times> node \<Rightarrow> node obj" where
  "recordSite ob s = (case s of (pos, key, f) \<Rightarrow> assign key f ob)"

definition recorded :: "(nat list \<times> string \<times> node) list \<Rightarrow> node obj" where
  "recorded ss = foldl recordSite [] ss"


text \<open>What \<open>getSlices\<close> of a layer holds under a slice name, if anything.\<close>

definition sliceOf :: "string list \<Rightarrow> node \<Rightarrow> string \<Rightarrow> node option" where
  "sliceOf extras layer k =
     (case getSlices layer extras of None \<Rightarrow> None | Some s \<Rightarrow> map_of s k)"

section \<open>The object \<^verbatim>\<open>slices\<close> with its prototype\<close>

text \<open>
  The object \<^verbatim>\<open>slices\<close> of \<^verbatim>\<open>getSlices\<close> in full: its prototype (\<open>None\<close> while it is
  still \<^verbatim>\<open>Object.prototype\<close>) and its own properties. A node object has the own
  properties \<^verbatim>\<open>type\<close> and \<^verbatim>\<open>path\<close>, a Folder also \<^verbatim>\<open>children\<close>.
\<close>

record slicesObject =
  prototype :: "node option"
  ownProps :: "node obj"

fun ownNames :: "node \<Rightarrow> string list" where
  "ownNames (File p) = [''type'', ''path'']"
| "ownNames (Folder p cs) = [''type'', ''path'', ''children'']"

text \<open>
  \<^verbatim>\<open>slices[key] = folder\<close> in strict mode (the file is an ES module). The key
  \<open>__proto__\<close> makes the folder the prototype. An own property is overwritten. A key that
  is not an own property is looked up along the prototype chain: when a folder is the
  prototype and has a property of that name, the assignment creates an own property if
  that property is writable and throws a TypeError (\<open>None\<close>) if the folder is frozen.
  \<open>frozen\<close> says whether the objects of the tree have been frozen
  (\<^verbatim>\<open>Object.freeze\<close>).
\<close>

definition strictAssign :: "bool \<Rightarrow> string \<Rightarrow> node \<Rightarrow> slicesObject \<Rightarrow> slicesObject option" where
  "strictAssign frozen key v ob =
     (if key = ''__proto__'' then Some (ob\<lparr>prototype := Some v\<rparr>)
      else if key \<in> fst ` set (ownProps ob)
        then Some (ob\<lparr>ownProps := AList.update key v (ownProps ob)\<rparr>)
      else
        (case prototype ob of
           None \<Rightarrow> Some (ob\<lparr>ownProps := AList.update key v (ownProps ob)\<rparr>)
         | Some f \<Rightarrow>
             if frozen \<and> key \<in> set (ownNames f) then None
             else Some (ob\<lparr>ownProps := AList.update key v (ownProps ob)\<rparr>)))"

text \<open>\<^verbatim>\<open>traverse\<close> and \<^verbatim>\<open>getSlices\<close> once more, on this object.\<close>

fun strictTraverse ::
  "bool \<Rightarrow> string list \<Rightarrow> node \<Rightarrow> string \<Rightarrow> slicesObject \<Rightarrow> slicesObject option"
and strictForEachChild ::
  "bool \<Rightarrow> string list \<Rightarrow> node list \<Rightarrow> string \<Rightarrow> slicesObject \<Rightarrow> slicesObject option" where
  "strictTraverse frozen extras (File p) pathPrefix slices = None"
| "strictTraverse frozen extras (Folder p cs) pathPrefix slices =
     (case isSlice (Folder p cs) extras of
        None \<Rightarrow> None
      | Some True \<Rightarrow> strictAssign frozen (join [pathPrefix, basename p]) (Folder p cs) slices
      | Some False \<Rightarrow> strictForEachChild frozen extras cs (join [pathPrefix, basename p]) slices)"
| "strictForEachChild frozen extras [] prefix slices = Some slices"
| "strictForEachChild frozen extras (child # rest) prefix slices =
     (if isFolder child then
        (case strictTraverse frozen extras child prefix slices of
           None \<Rightarrow> None
         | Some slices' \<Rightarrow> strictForEachChild frozen extras rest prefix slices')
      else strictForEachChild frozen extras rest prefix slices)"

definition strictGetSlices :: "bool \<Rightarrow> node \<Rightarrow> string list \<Rightarrow> slicesObject option" where
  "strictGetSlices frozen slicedLayer additionalSegmentNames =
     (case children slicedLayer of
        None \<Rightarrow> None
      | Some cs \<Rightarrow>
          strictForEachChild frozen additionalSegmentNames cs []
            \<lparr>prototype = None, ownProps = []\<rparr>)"

section \<open>The import resolver\<close>

text \<open>
  Modelled from the spec: \<^verbatim>\<open>resolveImport\<close>, whose implementation is not among the
  sources (only its test is). Section 4.2 of the spec: a specifier that starts with
  \<open>./\<close> or \<open>../\<close> is resolved against the directory of the importer and bypasses
  \<open>paths\<close>; otherwise the first key of \<open>paths\<close>, in declaration order, that matches the
  specifier (exactly, or by its fixed prefix and suffix around one wildcard) gives one
  base candidate per replacement template, with the captured text substituted, rooted
  at \<open>baseUrl\<close>; with no matching key the one base candidate is \<open>baseUrl/specifier\<close>.
  Each base candidate is probed as it is, then with each of the extensions
  \<open>.ts\<close>, \<open>.tsx\<close>, \<open>.js\<close>, \<open>.jsx\<close> appended, then as a directory with \<open>/index\<close> and
  each extension; the first path the probe accepts is returned, normalized, and
  \<open>None\<close> (\<^verbatim>\<open>undefined\<close>) when there is none.
\<close>

record compilerOptions =
  baseUrl :: string
  paths :: "(string \<times> string list) list"

definition isRelativeSpecifier :: "string \<Rightarrow> bool" where
  "isRelativeSpecifier s = (take 2 s = ''./'' \<or> take 3 s = ''../'')"

definition matchKey :: "string \<Rightarrow> string \<Rightarrow> string option" where
  "matchKey key s =
     (if CHR ''*'' \<notin> set key then (if s = key then Some [] else None)
      else
        (let pre = takeWhile (\<lambda>c. c \<noteq> CHR ''*'') key;
             suf = tl (dropWhile (\<lambda>c. c \<noteq> CHR ''*'') key)
         in if length pre + length suf \<le> length s \<and> take (length pre) s = pre \<and>
               drop (length s - length suf) s = suf
            then Some (take (length s - length pre - length suf) (drop (length pre) s))
            else None))"

definition substitute :: "string \<Rightarrow> string \<Rightarrow> string" where
  "substitute template captured =
     (if CHR ''*'' \<in> set template
      then takeWhile (\<lambda>c. c \<noteq> CHR ''*'') template @ captured @
           tl (dropWhile (\<lambda>c. c \<noteq> CHR ''*'') template)
      else template)"

fun firstMatch :: "(string \<times> string list) list \<Rightarrow> string \<Rightarrow> (string list \<times> string) option" where
  "firstMatch [] s = None"
| "firstMatch ((key, templates) # rest) s =
     (case matchKey key s of
        Some captured \<Rightarrow> Some (templates, captured)
      | None \<Rightarrow> firstMatch rest s)"

definition sourceExtensions :: "string list" where
  "sourceExtensions = [''.ts'', ''.tsx'', ''.js'', ''.jsx'']"

definition fallbacks :: "string \<Rightarrow> string list" where
  "fallbacks candidate =
     candidate # map (\<lambda>e. candidate @ e) sourceExtensions @
     map (\<lambda>e. candidate @ ''/index'' @ e) sourceExtensions"

definition baseCandidates :: "string \<Rightarrow> string \<Rightarrow> compilerOptions \<Rightarrow> string list" where
  "baseCandidates specifier importerPath options =
     (if isRelativeSpecifier specifier then [join [dir (parse importerPath), specifier]]
      else
        (case firstMatch (paths options) specifier of
           Some (templates, captured) \<Rightarrow>
             map (\<lambda>t. join [baseUrl options, substitute t captured]) templates
         | None \<Rightarrow> [join [baseUrl options, specifier]]))"

definition resolveImport ::
  "string \<Rightarrow> string \<Rightarrow> compilerOptions \<Rightarrow> (string \<Rightarrow> bool) \<Rightarrow> string option" where
  "resolveImport specifier importerPath options fileExists =
     map_option normalize_path
       (List.find fileExists
         (concat (map fallbacks (baseCandidates specifier importerPath options))))"

section \<open>Examples from the documentation\<close>

text \<open>The examples of the doc comment of \<^verbatim>\<open>withoutExtension\<close>.\<close>

lemma withoutExtension_examples:
  "withoutExtension ''index.tsx'' = ''index''"
  "withoutExtension ''index.spec.tsx'' = ''index.spec''"
  "withoutExtension ''index'' = ''index''"
  by code_simp+

text \<open>Examples of the Node.js documentation of \<^verbatim>\<open>node:path\<close>.\<close>

lemma path_examples:
  "basename ''/foo/bar/baz/asdf/quux.html'' = ''quux.html''"
  "parse ''/home/user/dir/file.txt'' =
     \<lparr>root = ''/'', dir = ''/home/user/dir'', base = ''file.txt'', ext = ''.txt'', name = ''file''\<rparr>"
  "normalize_path ''/foo/bar//baz/asdf/quux/..'' = ''/foo/bar/baz/asdf''"
  "join [''/foo'', ''bar'', ''baz/asdf'', ''quux'', ''..''] = ''/foo/bar/baz/asdf''"
  by code_simp+

section \<open>Properties of the path functions\<close>

lemma takeWhile_snoc_stop: "\<not> Q x \<Longrightarrow> takeWhile Q (r @ x # t) = takeWhile Q r"
  by (induction r) auto

lemma lastIndexOf_split:
  assumes "c \<in> set s"
  obtains u t where "s = u @ c # t" and "c \<notin> set t" and "lastIndexOf c s = Some (length u)"
proof -
  from split_list_last[OF assms] obtain u t where s: "s = u @ c # t" and t: "c \<notin> set t"
    by blast
  have "takeWhile (\<lambda>x. x \<noteq> c) (rev s) = rev t"
    using t by (auto simp add: s takeWhile_snoc_stop)
  then have "lastIndexOf c s = Some (length u)"
    using assms by (simp add: lastIndexOf_def s)
  with s t show thesis by (rule that)
qed

lemma lastIndexOf_None: "lastIndexOf c s = None \<longleftrightarrow> c \<notin> set s"
  by (simp add: lastIndexOf_def)

lemma at0_split: "at0 (split c s) = Some (takeWhile (\<lambda>x. x \<noteq> c) s)"
  by (induction s) (auto split: list.splits)

lemma basename_tl:
  "basename (CHR ''/'' # q) = basename q"
proof (cases "\<forall>x\<in>set q. x = CHR ''/''")
  case True
  then have a: "dropWhile (\<lambda>c. c = CHR ''/'') (rev q @ [CHR ''/'']) = []"
    and b: "dropWhile (\<lambda>c. c = CHR ''/'') (rev q) = []"
    by (simp_all add: dropWhile_eq_Nil_conv)
  show ?thesis by (simp only: basename_def rev.simps a b)
next
  case False
  then obtain x where x: "x \<in> set (rev q)" "\<not> x = CHR ''/''" by auto
  have "dropWhile (\<lambda>c. c = CHR ''/'') (rev q @ [CHR ''/'']) = dropWhile (\<lambda>c. c = CHR ''/'') (rev q) @ [CHR ''/'']"
    using x by (simp add: dropWhile_append1)
  then show ?thesis
    by (simp add: basename_def takeWhile_snoc_stop)
qed

lemma base_parse_unfold:
  "base (parse q) = basename (if q \<noteq> [] \<and> hd q = CHR ''/'' then tl q else q)"
  by (simp add: parse_def basename_def Let_def)

lemma base_parse: "base (parse q) = basename q"
proof (cases q)
  case Nil
  then show ?thesis by (simp add: base_parse_unfold)
next
  case (Cons x xs)
  then show ?thesis by (cases "x = CHR ''/''") (simp_all add: base_parse_unfold basename_tl)
qed

lemma name_parse_unfold:
  "name (parse q) =
     (case lastIndexOf CHR ''.'' (base (parse q)) of
        None \<Rightarrow> base (parse q)
      | Some k \<Rightarrow>
          if k = 0 \<or> (base (parse q) = ''..'' \<and>
               (dropWhile (\<lambda>c. c \<noteq> CHR ''/'') (dropWhile (\<lambda>c. c = CHR ''/'')
                  (rev (if q \<noteq> [] \<and> hd q = CHR ''/'' then tl q else q))) \<noteq> [] \<or>
                \<not> (q \<noteq> [] \<and> hd q = CHR ''/'')))
          then base (parse q) else take k (base (parse q)))"
  by (simp add: parse_def Let_def split: option.splits)

lemma name_parse_cases:
  "name (parse q) = basename q \<or>
   (\<exists>u t. basename q = u @ CHR ''.'' # t \<and> CHR ''.'' \<notin> set t \<and> u \<noteq> [] \<and> name (parse q) = u)"
proof (cases "CHR ''.'' \<in> set (basename q)")
  case False
  then have "lastIndexOf CHR ''.'' (base (parse q)) = None"
    by (simp add: base_parse lastIndexOf_None)
  then have "name (parse q) = base (parse q)"
    by (simp add: name_parse_unfold)
  then show ?thesis by (simp add: base_parse)
next
  case True
  then obtain u t where ut: "basename q = u @ CHR ''.'' # t" "CHR ''.'' \<notin> set t"
      "lastIndexOf CHR ''.'' (basename q) = Some (length u)"
    by (rule lastIndexOf_split)
  have k: "lastIndexOf CHR ''.'' (base (parse q)) = Some (length u)"
    using ut(3) by (simp add: base_parse)
  have "name (parse q) = base (parse q) \<or>
        (u \<noteq> [] \<and> name (parse q) = take (length u) (base (parse q)))"
    by (subst (1 2) name_parse_unfold) (simp add: k)
  then show ?thesis
    using ut(1,2) by (auto simp add: base_parse)
qed

lemma first_token_name:
  "takeWhile (\<lambda>x. x \<noteq> CHR ''.'') (name (parse q)) = takeWhile (\<lambda>x. x \<noteq> CHR ''.'') (basename q)"
  using name_parse_cases[of q] by (auto simp: takeWhile_snoc_stop)

lemma isIndex_iff:
  "isIndex c \<longleftrightarrow> isFile c \<and> takeWhile (\<lambda>x. x \<noteq> CHR ''.'') (basename (path c)) = ''index''"
  by (simp add: isIndex_def at0_split first_token_name)

lemma isIndex_eq:
  "isIndex =
     (\<lambda>c. isFile c \<and> takeWhile (\<lambda>x. x \<noteq> CHR ''.'') (basename (path c)) = ''index'')"
  by (rule ext) (simp add: isIndex_iff)

lemma name_vs_withoutExtension:
  "name (parse q) = withoutExtension (basename q) \<or>
   (name (parse q) \<noteq> [] \<and> hd (name (parse q)) = CHR ''.'' \<and>
    (withoutExtension (basename q) = [] \<or> hd (withoutExtension (basename q)) = CHR ''.''))"
proof (cases "CHR ''.'' \<in> set (basename q)")
  case False
  then have n: "lastIndexOf CHR ''.'' (basename q) = None"
    by (simp add: lastIndexOf_None)
  then have "name (parse q) = base (parse q)"
    by (simp add: name_parse_unfold base_parse)
  then show ?thesis using n by (simp add: base_parse withoutExtension_def)
next
  case True
  then obtain u t where ut: "basename q = u @ CHR ''.'' # t" "CHR ''.'' \<notin> set t"
      "lastIndexOf CHR ''.'' (basename q) = Some (length u)"
    by (rule lastIndexOf_split)
  have k: "lastIndexOf CHR ''.'' (base (parse q)) = Some (length u)"
    using ut(3) by (simp add: base_parse)
  have w: "withoutExtension (basename q) = u"
    using ut(1,3) by (simp add: withoutExtension_def)
  have "(u = [] \<and> name (parse q) = base (parse q)) \<or>
        (base (parse q) = ''..'' \<and> name (parse q) = base (parse q)) \<or>
        name (parse q) = take (length u) (base (parse q))"
    by (subst (1 2 3) name_parse_unfold) (simp add: k)
  then show ?thesis
  proof (elim disjE conjE)
    assume "u = []" "name (parse q) = base (parse q)"
    then show ?thesis using ut(1) w by (simp add: base_parse)
  next
    assume "base (parse q) = ''..''" "name (parse q) = base (parse q)"
    moreover from this ut(1,2) have "u = ''.''"
      by (cases u) (auto simp add: base_parse Cons_eq_append_conv append_eq_Cons_conv)
    ultimately show ?thesis using w by simp
  next
    assume "name (parse q) = take (length u) (base (parse q))"
    then show ?thesis using ut(1) w by (simp add: base_parse)
  qed
qed






section \<open>Properties of objects and array methods\<close>

lemma map_of_foldl_update:
  "map_of (foldl (\<lambda>ob (k, v). AList.update k v ob) ob es) = map_of ob ++ map_of (rev es)"
proof (induction es arbitrary: ob)
  case Nil
  show ?case by simp
next
  case (Cons e es)
  obtain k v where e: "e = (k, v)" by (cases e)
  have "map_of (foldl (\<lambda>ob (k, v). AList.update k v ob) ob (e # es)) =
        map_of (AList.update k v ob) ++ map_of (rev es)"
    using Cons.IH[of "AList.update k v ob"] by (simp add: e)
  also have "\<dots> = map_of ob ++ map_of (rev (e # es))"
    by (rule ext) (simp add: e update_conv' map_add_def split: option.splits)
  finally show ?case .
qed

lemma map_of_fromEntries: "map_of (fromEntries es) = map_of (rev es)"
  by (simp add: fromEntries_def map_of_foldl_update)

lemma distinct_foldl_update:
  "distinct (map fst ob) \<Longrightarrow> distinct (map fst (foldl (\<lambda>ob (k, v). AList.update k v ob) ob es))"
  by (induction es arbitrary: ob) (auto simp add: distinct_update)

lemma distinct_fromEntries: "distinct (map fst (fromEntries es))"
  by (simp add: fromEntries_def distinct_foldl_update)

lemma set_update_subset: "set (AList.update k v al) \<subseteq> insert (k, v) (set al)"
  by (induction al) auto

lemma set_foldl_update:
  "set (foldl (\<lambda>ob (k, v). AList.update k v ob) ob es) \<subseteq> set ob \<union> set es"
proof (induction es arbitrary: ob)
  case Nil
  show ?case by simp
next
  case (Cons e es)
  obtain k v where e: "e = (k, v)" by (cases e)
  show ?case
    using Cons.IH[of "AList.update k v ob"] set_update_subset[of k v ob]
    by (auto simp add: e)
qed

lemma set_fromEntries: "set (fromEntries es) \<subseteq> set es"
  using set_foldl_update[of "[]" es] by (simp add: fromEntries_def)

lemma map_of_keyed_filter:
  "map_of (map (\<lambda>c. (f c, c)) (filter P xs)) k = List.find (\<lambda>c. P c \<and> f c = k) xs"
  by (induction xs) auto

lemma map_of_fromEntries_keyed:
  "map_of (fromEntries (map (\<lambda>c. (f c, c)) (filter P xs))) k =
     List.find (\<lambda>c. P c \<and> f c = k) (rev xs)"
  by (simp add: map_of_fromEntries rev_map rev_filter map_of_keyed_filter)

lemma keys_fromEntries: "fst ` set (fromEntries es) = fst ` set es"
proof -
  have "dom (map_of (fromEntries es)) = dom (map_of (rev es))"
    by (simp add: map_of_fromEntries)
  then show ?thesis by (simp add: dom_map_of_conv_image_fst)
qed

lemma set_fromEntries_distinct:
  assumes "distinct (map fst es)"
  shows "set (fromEntries es) = set es"
proof -
  have "map_of (fromEntries es) = map_of es"
    using assms by (simp add: map_of_fromEntries map_of_inject_set distinct_rev rev_map[symmetric])
  then show ?thesis
    using assms by (simp add: map_of_inject_set[symmetric] distinct_fromEntries)
qed

lemma map_of_rev: "distinct (map fst xs) \<Longrightarrow> map_of (rev xs) = map_of xs"
  by (simp add: map_of_inject_set distinct_rev rev_map[symmetric])

lemma set_entries: "set (entries ob) = set ob"
  by (auto simp add: entries_def)

lemma distinct_keys_sort_key:
  "distinct (map fst (sort_key f xs)) = distinct (map fst xs)"
  by (simp add: distinct_map)

lemma distinct_entries:
  assumes "distinct (map fst ob)"
  shows "distinct (map fst (entries ob))"
proof -
  let ?A = "filter (\<lambda>e. isArrayIndex (fst e)) ob"
  let ?B = "filter (\<lambda>e. \<not> isArrayIndex (fst e)) ob"
  have a: "distinct (map fst ?A)" and b: "distinct (map fst ?B)"
    using assms by (simp_all add: distinct_map_filter)
  have "fst ` set ?A \<inter> fst ` set ?B = {}" by auto
  with a b show ?thesis
    by (simp add: entries_def distinct_keys_sort_key)
qed

lemma map_of_entries: "distinct (map fst ob) \<Longrightarrow> map_of (entries ob) = map_of ob"
  by (simp add: map_of_inject_set distinct_entries set_entries)

lemma map_of_spread2:
  assumes "distinct (map fst a)" "distinct (map fst b)"
  shows "map_of (spread2 a b) = map_of a ++ map_of b"
proof -
  have "map_of (spread2 a b) = map_of (rev (entries b) @ rev (entries a))"
    by (simp add: spread2_def map_of_fromEntries)
  also have "\<dots> = map_of (rev (entries a)) ++ map_of (rev (entries b))"
    by (simp only: map_of_append)
  also have "\<dots> = map_of a ++ map_of b"
    using assms by (simp add: map_of_rev distinct_entries map_of_entries)
  finally show ?thesis .
qed

lemma distinct_spread2: "distinct (map fst (spread2 a b))"
  by (simp add: spread2_def distinct_fromEntries)

lemma set_assign_subset: "set (assign k v ob) \<subseteq> insert (k, v) (set ob)"
  using set_update_subset[of k v ob] by (auto simp add: assign_def)

lemma distinct_assign: "distinct (map fst ob) \<Longrightarrow> distinct (map fst (assign k v ob))"
  by (simp add: assign_def distinct_update)

lemma map_of_tagged:
  "map_of (map (\<lambda>(nm, slice). (nm, (slice, t))) xs) k = map_option (\<lambda>f. (f, t)) (map_of xs k)"
  by (induction xs) auto

lemma map_of_tagged_entries:
  assumes "distinct (map fst s)"
  shows "map_of (fromEntries (map (\<lambda>(nm, slice). (nm, (slice, t))) (entries s))) k =
         map_option (\<lambda>f. (f, t)) (map_of s k)"
proof -
  have "map_of (fromEntries (map (\<lambda>(nm, slice). (nm, (slice, t))) (entries s))) k =
        map_of (map (\<lambda>(nm, slice). (nm, (slice, t))) (rev (entries s))) k"
    by (simp add: map_of_fromEntries rev_map)
  also have "\<dots> = map_option (\<lambda>f. (f, t)) (map_of (rev (entries s)) k)"
    by (rule map_of_tagged)
  also have "\<dots> = map_option (\<lambda>f. (f, t)) (map_of s k)"
    using assms by (simp add: map_of_rev distinct_entries map_of_entries)
  finally show ?thesis .
qed

lemma find_snoc:
  "List.find P (xs @ [x]) =
     (case List.find P xs of None \<Rightarrow> (if P x then Some x else None) | Some y \<Rightarrow> Some y)"
  by (induction xs) auto

lemma flatMap_total:
  "(\<forall>x\<in>set xs. \<exists>y. f x = Some y) \<Longrightarrow> \<exists>ys. flatMap f xs = Some ys"
  by (induction xs) auto

section \<open>Properties of the walk of \<^verbatim>\<open>getSlices\<close>\<close>

lemma isSlice_Folder:
  "isSlice (Folder p cs) extras =
     Some (list_ex (\<lambda>child. name (parse (path child)) \<in>
        set (conventionalSegmentNames @ extras)) cs)"
  by (simp add: isSlice_def)

lemma isSlice_File: "isSlice (File p) extras = None"
  by (simp add: isSlice_def)

lemma isSlice_True_isFolder: "isSlice f extras = Some b \<Longrightarrow> isFolder f"
  by (cases f) (simp_all add: isSlice_File)

lemma recordSite_triple: "recordSite ob (pos, key, f) = assign key f ob"
  by (simp add: recordSite_def)

lemma recordSite_atChild: "recordSite ob (atChild i s) = recordSite ob s"
  by (cases s) (simp add: recordSite_def atChild_def)

lemma foldl_recordSite_atChild:
  "foldl recordSite ob (map (atChild i) ss) = foldl recordSite ob ss"
  by (induction ss arbitrary: ob) (simp_all add: recordSite_atChild)

lemma traverse_sites:
  "isFolder n \<longrightarrow> traverse extras n prefix ob =
      Some (foldl recordSite ob (sites extras n prefix))"
  "\<forall>i. forEachChild extras cs prefix ob =
      Some (foldl recordSite ob (sitesOfChildren extras cs prefix i))"
proof (induction extras n prefix ob and extras cs prefix ob rule: traverse_forEachChild.induct)
  case (1 extras p pathPrefix slices)
  show ?case by simp
next
  case (2 extras p cs pathPrefix slices)
  show ?case
  proof (cases "list_ex (\<lambda>child. name (parse (path child)) \<in>
        set (conventionalSegmentNames @ extras)) cs")
    case True
    then show ?thesis by (simp add: isSlice_Folder recordSite_def)
  next
    case False
    then have sl: "isSlice (Folder p cs) extras = Some False" by (simp add: isSlice_Folder)
    with 2[of False] show ?thesis by simp
  qed
next
  case (3 extras prefix slices)
  show ?case by simp
next
  case (4 extras child rest prefix slices)
  show ?case
  proof (cases "isFolder child")
    case True
    with 4(1) obtain ob' where ob': "traverse extras child prefix slices = Some ob'"
      "ob' = foldl recordSite slices (sites extras child prefix)"
      by simp
    with 4(2)[OF True ob'(1)] True show ?thesis
      by (simp add: foldl_recordSite_atChild)
  next
    case False
    with 4(3) show ?thesis by simp
  qed
qed

lemma getSlices_recorded:
  "isFolder layer \<Longrightarrow> getSlices layer extras = Some (recorded (sliceSites layer extras))"
  by (cases layer) (simp_all add: getSlices_def sliceSites_def recorded_def traverse_sites(2))

lemma fst_atChild: "fst (atChild i s) = i # fst s"
  by (cases s) (simp add: atChild_def)

lemma in_atChild:
  "(pos, key, f) \<in> atChild i ` S \<longleftrightarrow> (\<exists>q. pos = i # q \<and> (q, key, f) \<in> S)"
  by (auto simp add: atChild_def image_iff split: prod.splits)

lemma sites_nodeAt:
  "\<forall>pos key f. (pos, key, f) \<in> set (sites extras n prefix) \<longrightarrow>
      nodeAt n pos = Some f \<and> isSlice f extras = Some True"
  "\<forall>pos key f. (pos, key, f) \<in> set (sitesOfChildren extras cs prefix i) \<longrightarrow>
      (\<exists>j q. pos = (i + j) # q \<and> j < length cs \<and> nodeAt (cs ! j) q = Some f \<and>
         isSlice f extras = Some True)"
proof (induction extras n prefix and extras cs prefix i rule: sites_sitesOfChildren.induct)
  case (1 extras p pathPrefix)
  show ?case by simp
next
  case (2 extras p cs pathPrefix)
  show ?case
  proof (cases "isSlice (Folder p cs) extras = Some True")
    case True
    then show ?thesis by simp
  next
    case False
    show ?thesis
    proof (intro allI impI)
      fix pos key f
      assume "(pos, key, f) \<in> set (sites extras (Folder p cs) pathPrefix)"
      with False have "(pos, key, f) \<in> set (sitesOfChildren extras cs (join [pathPrefix, basename p]) 0)"
        by simp
      with 2[OF False] obtain j q where "pos = j # q" "j < length cs"
        "nodeAt (cs ! j) q = Some f" "isSlice f extras = Some True"
        by fastforce
      then show "nodeAt (Folder p cs) pos = Some f \<and> isSlice f extras = Some True"
        by simp
    qed
  qed
next
  case (3 extras prefix i)
  show ?case by simp
next
  case (4 extras child rest prefix i)
  show ?case
  proof (intro allI impI)
    fix pos key f
    assume a: "(pos, key, f) \<in> set (sitesOfChildren extras (child # rest) prefix i)"
    then consider
      (here) "isFolder child" "(pos, key, f) \<in> atChild i ` set (sites extras child prefix)" |
      (later) "(pos, key, f) \<in> set (sitesOfChildren extras rest prefix (Suc i))"
      by (auto split: if_splits)
    then show "\<exists>j q. pos = (i + j) # q \<and> j < length (child # rest) \<and>
        nodeAt ((child # rest) ! j) q = Some f \<and> isSlice f extras = Some True"
    proof cases
      case here
      then obtain q where q: "pos = i # q" "(q, key, f) \<in> set (sites extras child prefix)"
        by (auto simp add: in_atChild)
      with 4(1)[OF here(1)] have "nodeAt child q = Some f \<and> isSlice f extras = Some True"
        by blast
      with q(1) show ?thesis
        by (intro exI[of _ 0] exI[of _ q]) simp
    next
      case later
      with 4(2) obtain j q where "pos = (Suc i + j) # q" "j < length rest"
        "nodeAt (rest ! j) q = Some f" "isSlice f extras = Some True"
        by blast
      then show ?thesis
        by (intro exI[of _ "Suc j"] exI[of _ q]) simp
    qed
  qed
qed

lemma sitesOfChildren_head:
  assumes "pos \<in> fst ` set (sitesOfChildren extras cs prefix i)"
  shows "\<exists>j q. pos = j # q \<and> i \<le> j"
proof -
  from assms obtain key f where "(pos, key, f) \<in> set (sitesOfChildren extras cs prefix i)"
    by auto
  with sites_nodeAt(2)[of extras cs prefix i] obtain j q where "pos = (i + j) # q"
    by blast
  then show ?thesis by auto
qed

lemma sites_antichain:
  "distinct (map fst (sites extras n prefix)) \<and>
   (\<forall>pos q. pos \<in> fst ` set (sites extras n prefix) \<and>
       pos @ q \<in> fst ` set (sites extras n prefix) \<longrightarrow> q = [])"
  "distinct (map fst (sitesOfChildren extras cs prefix i)) \<and>
   (\<forall>pos q. pos \<in> fst ` set (sitesOfChildren extras cs prefix i) \<and>
       pos @ q \<in> fst ` set (sitesOfChildren extras cs prefix i) \<longrightarrow> q = [])"
proof (induction extras n prefix and extras cs prefix i rule: sites_sitesOfChildren.induct)
  case (1 extras p pathPrefix)
  show ?case by simp
next
  case (2 extras p cs pathPrefix)
  show ?case
  proof (cases "isSlice (Folder p cs) extras = Some True")
    case True
    then show ?thesis by simp
  next
    case False
    with 2[OF False] show ?thesis by simp
  qed
next
  case (3 extras prefix i)
  show ?case by simp
next
  case (4 extras child rest prefix i)
  let ?A = "if isFolder child then map (atChild i) (sites extras child prefix) else []"
  let ?B = "sitesOfChildren extras rest prefix (Suc i)"
  have A: "\<exists>r. pos = i # r \<and> r \<in> fst ` set (sites extras child prefix) \<and> isFolder child"
    if "pos \<in> fst ` set ?A" for pos
  proof -
    from that have f: "isFolder child" by (auto split: if_splits)
    with that obtain s where "s \<in> set (sites extras child prefix)" "pos = fst (atChild i s)"
      by auto
    with f show ?thesis by (auto simp add: fst_atChild)
  qed
  have B: "\<exists>j q. pos = j # q \<and> Suc i \<le> j" if "pos \<in> fst ` set ?B" for pos
    using that by (rule sitesOfChildren_head)
  have dA: "distinct (map fst ?A)"
  proof (cases "isFolder child")
    case True
    have "map fst (map (atChild i) (sites extras child prefix)) =
          map (\<lambda>q. i # q) (map fst (sites extras child prefix))"
      by (simp add: fst_atChild comp_def)
    with 4(1)[OF True] True show ?thesis
      by (simp add: distinct_map inj_on_def del: map_map)
  next
    case False
    then show ?thesis by simp
  qed
  have disj: "fst ` set ?A \<inter> fst ` set ?B = {}"
  proof (rule ccontr)
    assume "fst ` set ?A \<inter> fst ` set ?B \<noteq> {}"
    then obtain pos where "pos \<in> fst ` set ?A" "pos \<in> fst ` set ?B" by blast
    from A[OF this(1)] B[OF this(2)] show False by auto
  qed
  have d: "distinct (map fst (?A @ ?B))"
    using dA 4(2) disj by simp
  have anti: "q = []" if p1: "pos \<in> fst ` set (?A @ ?B)" and p2: "pos @ q \<in> fst ` set (?A @ ?B)" for pos q
  proof (cases "pos \<in> fst ` set ?A")
    case True
    from A[OF True] obtain r where r: "pos = i # r" "r \<in> fst ` set (sites extras child prefix)"
      and f: "isFolder child" by blast
    have "pos @ q \<in> fst ` set ?A"
    proof (rule ccontr)
      assume "pos @ q \<notin> fst ` set ?A"
      with p2 have "pos @ q \<in> fst ` set ?B" by auto
      from B[OF this] r(1) show False by auto
    qed
    from A[OF this] r(1) have "r @ q \<in> fst ` set (sites extras child prefix)" by auto
    with 4(1)[OF f] r(2) show ?thesis by blast
  next
    case False
    with p1 have b1: "pos \<in> fst ` set ?B" by auto
    from B[OF b1] obtain j r where jr: "pos = j # r" "Suc i \<le> j" by blast
    have "pos @ q \<in> fst ` set ?B"
    proof (rule ccontr)
      assume "pos @ q \<notin> fst ` set ?B"
      with p2 have "pos @ q \<in> fst ` set ?A" by auto
      from A[OF this] jr show False by auto
    qed
    with 4(2) b1 show ?thesis by blast
  qed
  have eq: "sitesOfChildren extras (child # rest) prefix i = ?A @ ?B" by simp
  show ?case unfolding eq using d anti by blast
qed

lemma set_foldl_recordSite:
  "(k, g) \<in> set (foldl recordSite ob ss) \<Longrightarrow> (k, g) \<in> set ob \<or> (\<exists>pos. (pos, k, g) \<in> set ss)"
proof (induction ss arbitrary: ob)
  case Nil
  then show ?case by simp
next
  case (Cons s ss)
  obtain pos key f where s: "s = (pos, key, f)" by (cases s)
  from Cons.prems have "(k, g) \<in> set (foldl recordSite (assign key f ob) ss)"
    by (simp add: s recordSite_triple)
  from Cons.IH[OF this] set_assign_subset[of key f ob] show ?case
    by (auto simp add: s)
qed

lemma set_recorded: "(k, g) \<in> set (recorded ss) \<Longrightarrow> \<exists>pos. (pos, k, g) \<in> set ss"
  using set_foldl_recordSite[of k g "[]" ss] by (simp add: recorded_def)

lemma distinct_foldl_recordSite:
  "distinct (map fst ob) \<Longrightarrow> distinct (map fst (foldl recordSite ob ss))"
  by (induction ss arbitrary: ob) (auto simp add: recordSite_def distinct_assign split: prod.splits)

lemma distinct_recorded: "distinct (map fst (recorded ss))"
  by (simp add: recorded_def distinct_foldl_recordSite)


lemma sliceSites_nodeAt:
  assumes "(pos, key, f) \<in> set (sliceSites layer extras)"
  shows "nodeAt layer pos = Some f \<and> isSlice f extras = Some True"
proof (cases layer)
  case (File p)
  with assms show ?thesis by (simp add: sliceSites_def)
next
  case (Folder p cs)
  with assms have "(pos, key, f) \<in> set (sitesOfChildren extras cs [] 0)"
    by (simp add: sliceSites_def)
  with sites_nodeAt(2)[of extras cs "[]" 0] obtain j q where
    "pos = j # q" "j < length cs" "nodeAt (cs ! j) q = Some f" "isSlice f extras = Some True"
    by fastforce
  with Folder show ?thesis by simp
qed

lemma sliceSites_antichain:
  "distinct (map fst (sliceSites layer extras))"
  "pos \<in> fst ` set (sliceSites layer extras) \<Longrightarrow> q \<noteq> [] \<Longrightarrow>
     pos @ q \<notin> fst ` set (sliceSites layer extras)"
proof -
  show "distinct (map fst (sliceSites layer extras))"
    using sites_antichain(2)[of extras _ "[]" 0]
    by (cases layer) (simp_all add: sliceSites_def)
  show "pos @ q \<notin> fst ` set (sliceSites layer extras)"
    if "pos \<in> fst ` set (sliceSites layer extras)" "q \<noteq> []"
  proof (cases layer)
    case (File p)
    with that show ?thesis by (simp add: sliceSites_def)
  next
    case (Folder p cs)
    with that sites_antichain(2)[of extras cs "[]" 0] show ?thesis
      by (auto simp add: sliceSites_def)
  qed
qed


lemma sitesOfChildren_no_folder:
  "\<not> list_ex isFolder cs \<Longrightarrow> sitesOfChildren extras cs prefix i = []"
  by (induction cs arbitrary: i) auto

lemma getSlices_values:
  assumes "getSlices l extras = Some s" "(k, v) \<in> set s"
  shows "isFolder v"
proof (cases l)
  case (File p)
  with assms show ?thesis by (simp add: getSlices_def)
next
  case (Folder p cs)
  then have "getSlices l extras = Some (recorded (sliceSites l extras))"
    by (simp add: getSlices_recorded)
  with assms have "(k, v) \<in> set (recorded (sliceSites l extras))" by simp
  from set_recorded[OF this] obtain pos where "(pos, k, v) \<in> set (sliceSites l extras)" by blast
  from sliceSites_nodeAt[OF this] show ?thesis by (auto dest: isSlice_True_isFolder)
qed

section \<open>Properties of the operations on a root\<close>

lemma getLayers_values:
  assumes "getLayers fsdRoot = Some layers" "(k, v) \<in> set layers"
  shows "isFolder v"
proof (cases fsdRoot)
  case (File p)
  with assms show ?thesis by (simp add: getLayers_def)
next
  case (Folder p cs)
  with assms(1) have "layers = fromEntries (map (\<lambda>child. (basename (path child), child))
      (filter (\<lambda>child. isFolder child \<and> basename (path child) \<in> set layerSequence) cs))"
    by (simp add: getLayers_def)
  with assms(2) set_fromEntries show ?thesis by fastforce
qed

lemma sliceOf_Folder:
  "isFolder l \<Longrightarrow> sliceOf extras l k = map_of (recorded (sliceSites l extras)) k"
  by (simp add: sliceOf_def getSlices_recorded)

lemma reduce_slices:
  assumes "\<forall>l\<in>set ls. isFolder l" "distinct (map fst acc)"
  shows "\<exists>r. reduce
            (\<lambda>slices layer.
               case getSlices layer extras of
                 None \<Rightarrow> None
               | Some found \<Rightarrow>
                   Some (spread2 slices
                     (fromEntries
                       (map (\<lambda>(nm, slice). (nm, (slice, basename (path layer))))
                         (entries found)))))
            ls acc = Some r \<and> distinct (map fst r) \<and>
          (\<forall>k. map_of r k =
             (case List.find (\<lambda>l. sliceOf extras l k \<noteq> None) (rev ls) of
                None \<Rightarrow> map_of acc k
              | Some l \<Rightarrow> map_option (\<lambda>f. (f, basename (path l))) (sliceOf extras l k)))"
  using assms
proof (induction ls arbitrary: acc)
  case Nil
  then show ?case by simp
next
  case (Cons l ls)
  let ?step = "\<lambda>slices layer.
               case getSlices layer extras of
                 None \<Rightarrow> None
               | Some found \<Rightarrow>
                   Some (spread2 slices
                     (fromEntries
                       (map (\<lambda>(nm, slice). (nm, (slice, basename (path layer))))
                         (entries found))))"
  let ?S = "recorded (sliceSites l extras)"
  let ?T = "fromEntries (map (\<lambda>(nm, slice). (nm, (slice, basename (path l)))) (entries ?S))"
  let ?acc' = "spread2 acc ?T"
  from Cons.prems(1) have f: "isFolder l" by simp
  then have g: "getSlices l extras = Some ?S" by (rule getSlices_recorded)
  have t: "map_of ?T k = map_option (\<lambda>f. (f, basename (path l))) (sliceOf extras l k)" for k
    using f by (simp add: map_of_tagged_entries distinct_recorded sliceOf_Folder)
  have a: "map_of ?acc' = map_of acc ++ map_of ?T"
    using Cons.prems(2) by (simp add: map_of_spread2 distinct_fromEntries)
  have d: "distinct (map fst ?acc')" by (rule distinct_spread2)
  from Cons.prems(1) have "\<forall>l\<in>set ls. isFolder l" by simp
  from Cons.IH[OF this d] obtain r where r: "reduce ?step ls ?acc' = Some r" "distinct (map fst r)"
    "\<forall>k. map_of r k =
       (case List.find (\<lambda>l. sliceOf extras l k \<noteq> None) (rev ls) of
          None \<Rightarrow> map_of ?acc' k
        | Some l \<Rightarrow> map_option (\<lambda>f. (f, basename (path l))) (sliceOf extras l k))"
    by blast
  have 1: "reduce ?step (l # ls) acc = Some r"
    using r(1) g by simp
  have 2: "map_of r k =
       (case List.find (\<lambda>l. sliceOf extras l k \<noteq> None) (rev (l # ls)) of
          None \<Rightarrow> map_of acc k
        | Some l \<Rightarrow> map_option (\<lambda>f. (f, basename (path l))) (sliceOf extras l k))" for k
  proof (cases "List.find (\<lambda>l. sliceOf extras l k \<noteq> None) (rev ls)")
    case (Some l')
    with r(3) show ?thesis by (simp add: find_snoc)
  next
    case None
    with r(3) have "map_of r k = (map_of acc ++ map_of ?T) k" by (simp add: a)
    also have "\<dots> = (case sliceOf extras l k of None \<Rightarrow> map_of acc k
        | Some f \<Rightarrow> Some (f, basename (path l)))"
      by (simp add: map_add_def t split: option.splits)
    finally show ?thesis using None by (simp add: find_snoc split: option.splits)
  qed
  from 1 2 r(2) show ?case by blast
qed

lemma getAllSlices_char:
  assumes "getLayers fsdRoot = Some layers"
  shows "\<exists>r. getAllSlices fsdRoot extras = Some r \<and> distinct (map fst r) \<and>
     (\<forall>k. map_of r k =
       (case List.find (\<lambda>l. sliceOf extras l k \<noteq> None)
               (rev (filter (\<lambda>l. isSliced (LayerFolder l)) (values_of layers))) of
          None \<Rightarrow> None
        | Some l \<Rightarrow> map_option (\<lambda>f. (f, basename (path l))) (sliceOf extras l k)))"
proof -
  have "\<forall>l\<in>set (filter (\<lambda>l. isSliced (LayerFolder l)) (values_of layers)). isFolder l"
    using getLayers_values[OF assms] by (auto simp add: values_of_def set_entries)
  from reduce_slices[OF this, of "[]" extras, unfolded map_of.simps(1)] show ?thesis
    using assms by (simp add: getAllSlices_def)
qed

lemma getSegments_Folder: "isFolder n \<Longrightarrow> \<exists>g. getSegments n = Some g"
  by (cases n) (simp_all add: getSegments_def)

lemma sliceSegments_total:
  assumes "getSlices layer extras = Some slices" "e \<in> set (entries slices)"
  shows "\<exists>y. sliceSegments ln e = Some y"
proof -
  obtain sn slice where s: "e = (sn, slice)" by (cases e)
  with assms(2) have "(sn, slice) \<in> set slices" by (simp add: set_entries)
  from getSlices_values[OF assms(1) this] have "isFolder slice" .
  from getSegments_Folder[OF this] obtain g where "getSegments slice = Some g" by blast
  then show ?thesis by (simp add: s sliceSegments_def)
qed

lemma layerSegments_total:
  assumes "getLayers fsdRoot = Some layers" "e \<in> set (entries layers)"
  shows "\<exists>y. layerSegments e = Some y"
proof -
  obtain ln layer where l: "e = (ln, layer)" by (cases e)
  with assms(2) have "(ln, layer) \<in> set layers" by (simp add: set_entries)
  from getLayers_values[OF assms(1) this] have f: "isFolder layer" .
  from getSegments_Folder[OF f] obtain g where g: "getSegments layer = Some g" by blast
  from getSlices_recorded[OF f] obtain slices where sl: "getSlices layer [] = Some slices" by blast
  from sliceSegments_total[OF sl] have "\<exists>ys. flatMap (sliceSegments ln) (entries slices) = Some ys"
    by (intro flatMap_total ballI)
  then show ?thesis by (auto simp add: l layerSegments_def g sl)
qed

lemma getAllSegments_total:
  assumes "getLayers fsdRoot = Some layers"
  shows "\<exists>gs. getAllSegments fsdRoot = Some gs"
proof -
  from layerSegments_total[OF assms] have "\<exists>gs. flatMap layerSegments (entries layers) = Some gs"
    by (intro flatMap_total ballI)
  with assms show ?thesis by (simp add: getAllSegments_def)
qed

lemma isSliced_LayerFolder:
  "isSliced (LayerFolder l) = (basename (path l) \<noteq> ''shared'' \<and> basename (path l) \<noteq> ''app'')"
  by (simp add: isSliced_def unslicedLayers_def)

lemma isSliced_LayerName:
  "isSliced (LayerName s) = (basename s \<noteq> ''shared'' \<and> basename s \<noteq> ''app'')"
  by (simp add: isSliced_def unslicedLayers_def)

lemma entries_no_index: "\<forall>e\<in>set ob. \<not> isArrayIndex (fst e) \<Longrightarrow> entries ob = ob"
  by (simp add: entries_def filter_empty_conv)

lemma layer_name_no_index: "k \<in> set layerSequence \<Longrightarrow> \<not> isArrayIndex k"
proof -
  have "list_all (\<lambda>k. \<not> isArrayIndex k) layerSequence" by code_simp
  then show "k \<in> set layerSequence \<Longrightarrow> \<not> isArrayIndex k"
    by (simp add: list_all_iff)
qed

lemma getLayers_keys:
  assumes "getLayers fsdRoot = Some layers" "(k, v) \<in> set layers"
  shows "k \<in> set layerSequence"
proof (cases fsdRoot)
  case (File p)
  with assms show ?thesis by (simp add: getLayers_def)
next
  case (Folder p cs)
  with assms(1) have "layers = fromEntries (map (\<lambda>child. (basename (path child), child))
      (filter (\<lambda>child. isFolder child \<and> basename (path child) \<in> set layerSequence) cs))"
    by (simp add: getLayers_def)
  with assms(2) set_fromEntries show ?thesis by fastforce
qed

lemma values_of_getLayers:
  assumes "getLayers fsdRoot = Some layers"
  shows "values_of layers = map snd layers"
proof -
  have "\<forall>e\<in>set layers. \<not> isArrayIndex (fst e)"
    using getLayers_keys[OF assms] layer_name_no_index by fastforce
  then show ?thesis by (simp add: values_of_def entries_no_index)
qed

section \<open>The walk on unfrozen objects\<close>

text \<open>
  When the objects of the tree are not frozen, the walk on the object with its prototype
  never throws where \<open>traverse\<close> does not, and leaves the own properties that \<open>traverse\<close>
  computes.
\<close>

lemma strictAssign_unfrozen:
  "map_option ownProps (strictAssign False key v ob) = Some (assign key v (ownProps ob))"
  by (simp add: strictAssign_def assign_def split: option.splits)

lemma strictTraverse_unfrozen:
  "map_option ownProps (strictTraverse False extras n prefix ob) =
     traverse extras n prefix (ownProps ob)"
  "map_option ownProps (strictForEachChild False extras cs prefix ob) =
     forEachChild extras cs prefix (ownProps ob)"
proof (induction False extras n prefix ob and False extras cs prefix ob
    rule: strictTraverse_strictForEachChild.induct)
  case (1 extras p pathPrefix slices)
  show ?case by simp
next
  case (2 extras p cs pathPrefix slices)
  show ?case
  proof (cases "isSlice (Folder p cs) extras")
    case None
    then show ?thesis by simp
  next
    case (Some b)
    show ?thesis
    proof (cases b)
      case True
      with Some show ?thesis by (simp add: strictAssign_unfrozen)
    next
      case False
      with Some 2[of False] show ?thesis by simp
    qed
  qed
next
  case (3 extras prefix slices)
  show ?case by simp
next
  case (4 extras child rest prefix slices)
  show ?case
  proof (cases "isFolder child")
    case False
    with 4(3) show ?thesis by simp
  next
    case True
    show ?thesis
    proof (cases "strictTraverse False extras child prefix slices")
      case None
      with 4(1)[OF True] True show ?thesis by simp
    next
      case (Some ob')
      with 4(1)[OF True] have "traverse extras child prefix (ownProps slices) = Some (ownProps ob')"
        by simp
      with 4(2)[OF True Some] True Some show ?thesis by simp
    qed
  qed
qed

lemma strictGetSlices_unfrozen:
  "map_option ownProps (strictGetSlices False layer extras) = getSlices layer extras"
  by (cases layer) (simp_all add: strictGetSlices_def getSlices_def strictTraverse_unfrozen(2))

section \<open>Slices\<close>

text \<open>
  C1: for every layer Folder and every list of additional segment names, the result of
  \<open>getSlices\<close> is built from the assignments listed by \<open>sliceSites\<close>; every folder in
  the result satisfies \<open>isSlice\<close> with the same additional names; every assignment
  records the folder found at its position in the layer, and that folder satisfies
  \<open>isSlice\<close>; no position is recorded twice, and below a recorded position no other
  position is recorded, so no two recorded folders lie on one branch.
\<close>

theorem getSlices_sites:
  assumes "isFolder layer"
  shows "getSlices layer extras = Some (recorded (sliceSites layer extras)) \<and>
     list_all (\<lambda>(key, f). isSlice f extras = Some True) (recorded (sliceSites layer extras)) \<and>
     distinct (map fst (sliceSites layer extras)) \<and>
     (\<forall>pos key f. (pos, key, f) \<in> set (sliceSites layer extras) \<longrightarrow>
        nodeAt layer pos = Some f \<and> isSlice f extras = Some True \<and>
        (\<forall>q. q \<noteq> [] \<longrightarrow> pos @ q \<notin> fst ` set (sliceSites layer extras)))"
proof -
  have 1: "getSlices layer extras = Some (recorded (sliceSites layer extras))"
    using assms by (rule getSlices_recorded)
  have 2: "list_all (\<lambda>(key, f). isSlice f extras = Some True) (recorded (sliceSites layer extras))"
    unfolding list_all_iff
  proof (intro ballI)
    fix e assume e: "e \<in> set (recorded (sliceSites layer extras))"
    obtain k g where kg: "e = (k, g)" by (cases e)
    with e set_recorded[of k g] obtain pos where "(pos, k, g) \<in> set (sliceSites layer extras)"
      by blast
    then have "isSlice g extras = Some True" using sliceSites_nodeAt by blast
    with kg show "case e of (key, f) \<Rightarrow> isSlice f extras = Some True" by simp
  qed
  have 3: "distinct (map fst (sliceSites layer extras))"
    by (rule sliceSites_antichain(1))
  have 4: "nodeAt layer pos = Some f \<and> isSlice f extras = Some True \<and>
        (\<forall>q. q \<noteq> [] \<longrightarrow> pos @ q \<notin> fst ` set (sliceSites layer extras))"
    if "(pos, key, f) \<in> set (sliceSites layer extras)" for pos key f
  proof -
    from that have "pos \<in> fst ` set (sliceSites layer extras)" by force
    with sliceSites_antichain(2) sliceSites_nodeAt[OF that] show ?thesis by blast
  qed
  from 1 2 3 4 show ?thesis by blast
qed

text \<open>
  The folder \<open>home\<close> is recorded; its child \<open>ui\<close> satisfies \<open>isSlice\<close> as well (it holds
  \<open>model.ts\<close>) and is not recorded.
\<close>

theorem getSlices_sites_witness:
  "isFolder (Folder ''pages'' [Folder ''pages/home'' [Folder ''pages/home/ui'' [File ''pages/home/ui/model.ts'']]]) \<and>
   getSlices (Folder ''pages'' [Folder ''pages/home'' [Folder ''pages/home/ui'' [File ''pages/home/ui/model.ts'']]]) [] =
     Some [(''home'', Folder ''pages/home'' [Folder ''pages/home/ui'' [File ''pages/home/ui/model.ts'']])] \<and>
   nodeAt (Folder ''pages'' [Folder ''pages/home'' [Folder ''pages/home/ui'' [File ''pages/home/ui/model.ts'']]]) [0] =
     Some (Folder ''pages/home'' [Folder ''pages/home/ui'' [File ''pages/home/ui/model.ts'']]) \<and>
   isSlice (Folder ''pages/home'' [Folder ''pages/home/ui'' [File ''pages/home/ui/model.ts'']]) [] = Some True \<and>
   nodeAt (Folder ''pages'' [Folder ''pages/home'' [Folder ''pages/home/ui'' [File ''pages/home/ui/model.ts'']]]) [0, 0] =
     Some (Folder ''pages/home/ui'' [File ''pages/home/ui/model.ts'']) \<and>
   isSlice (Folder ''pages/home/ui'' [File ''pages/home/ui/model.ts'']) [] = Some True \<and>
   [0, 0] \<notin> fst ` set (sliceSites (Folder ''pages'' [Folder ''pages/home'' [Folder ''pages/home/ui'' [File ''pages/home/ui/model.ts'']]]) [])"
proof -
  let ?ui = "Folder ''pages/home/ui'' [File ''pages/home/ui/model.ts'']"
  let ?home = "Folder ''pages/home'' [?ui]"
  let ?layer = "Folder ''pages'' [?home]"
  have h: "isFolder ?layer" by simp
  have s: "sliceSites ?layer [] = [([0], ''home'', ?home)]" by code_simp
  have r: "recorded [([0], ''home'', ?home)] = [(''home'', ?home)]" by code_simp
  have u: "isSlice ?ui [] = Some True" by code_simp
  have n: "nodeAt ?layer [0, 0] = Some ?ui" by simp
  note t = getSlices_sites[OF h, of "[]", unfolded s r]
  from t have 1: "getSlices ?layer [] = Some [(''home'', ?home)]" by blast
  from t have "nodeAt ?layer [0] = Some ?home \<and> isSlice ?home [] = Some True \<and>
      (\<forall>q. q \<noteq> [] \<longrightarrow> [0] @ q \<notin> fst ` set [([0::nat], ''home'', ?home)])"
    by (elim conjE allE[of _ "[0]"] allE[of _ "''home''"] allE[of _ ?home]) simp
  then have 2: "nodeAt ?layer [0] = Some ?home" and 3: "isSlice ?home [] = Some True"
    and 4: "[0] @ [0] \<notin> fst ` set [([0::nat], ''home'', ?home)]"
    by blast+
  from h 1 2 3 4 u n show ?thesis unfolding s by simp
qed



section \<open>Index files\<close>

text \<open>
  C3: for a File node \<open>getIndexes\<close> returns the one-element list holding that node; for
  a Folder it returns, in child order, exactly the direct children that are Files and
  whose basename, cut at its first dot, is \<open>index\<close>; no returned node is a Folder. A
  folder with the files \<open>index.ts\<close>, \<open>index.client.ts\<close> and \<open>helper.ts\<close> yields the
  first two.
\<close>

theorem getIndexes_spec:
  "getIndexes (File p) = [File p] \<and>
   getIndexes (Folder d cs) =
     filter (\<lambda>c. isFile c \<and> takeWhile (\<lambda>x. x \<noteq> CHR ''.'') (basename (path c)) = ''index'') cs \<and>
   list_all isFile (getIndexes (Folder d cs)) \<and>
   getIndexes (Folder d [File ''index.ts'', File ''index.client.ts'', File ''helper.ts'']) =
     [File ''index.ts'', File ''index.client.ts'']"
proof -
  have a: "getIndexes (File p) = [File p]"
    by (simp add: getIndexes_def)
  have b: "getIndexes (Folder d cs) =
     filter (\<lambda>c. isFile c \<and> takeWhile (\<lambda>x. x \<noteq> CHR ''.'') (basename (path c)) = ''index'') cs" for cs
    by (simp add: getIndexes_def isIndex_eq)
  have c: "list_all isFile (getIndexes (Folder d cs))"
    by (simp add: b list_all_iff)
  have e: "getIndexes (Folder d [File ''index.ts'', File ''index.client.ts'', File ''helper.ts'']) =
     [File ''index.ts'', File ''index.client.ts'']"
    by (simp add: b basename_def)
  from a b c e show ?thesis by blast
qed

section \<open>Segments\<close>

text \<open>
  C4: for every Folder \<open>getSegments\<close> returns a mapping whose keys are exactly the
  extension-stripped basenames (\<^verbatim>\<open>parse(path).name\<close>) of the direct children that are
  not index files, and under each key it holds the last such child in child order: a
  later child with the same key overwrites an earlier one.
\<close>

theorem getSegments_spec:
  "\<exists>segs. getSegments (Folder p cs) = Some segs \<and> distinct (map fst segs) \<and>
     fst ` set segs = (\<lambda>c. name (parse (path c))) ` {c \<in> set cs. \<not> isIndex c} \<and>
     map_of segs k = List.find (\<lambda>c. \<not> isIndex c \<and> name (parse (path c)) = k) (rev cs)"
proof -
  let ?segs = "fromEntries (map (\<lambda>c. (name (parse (path c)), c)) (filter (\<lambda>c. \<not> isIndex c) cs))"
  have "getSegments (Folder p cs) = Some ?segs"
    by (simp add: getSegments_def)
  moreover have "distinct (map fst ?segs)"
    by (rule distinct_fromEntries)
  moreover have "fst ` set ?segs = (\<lambda>c. name (parse (path c))) ` {c \<in> set cs. \<not> isIndex c}"
    by (auto simp add: keys_fromEntries image_iff)
  moreover have "map_of ?segs k = List.find (\<lambda>c. \<not> isIndex c \<and> name (parse (path c)) = k) (rev cs)"
    by (rule map_of_fromEntries_keyed)
  ultimately show ?thesis by blast
qed

section \<open>Cross-import public API\<close>

text \<open>
  C5: the example of the doc comment of \<open>isCrossImportPublicApi\<close>. The file
  \<open>./src/entities/user/@x/product.ts\<close> has the extension-stripped basename \<open>product\<close>
  and the directory \<open>./src/entities/user/@x\<close>, which is \<open>layerPath/inSlice/@x\<close> for the
  layer path \<open>./src/entities\<close> and the slice \<open>user\<close>; \<^verbatim>\<open>join\<close> normalizes that path
  to \<open>src/entities/user/@x\<close>, so the function returns false where the comment and the
  claim say true.
\<close>

theorem isCrossImportPublicApi_docstring_example:
  "name (parse ''./src/entities/user/@x/product.ts'') = ''product'' \<and>
   dir (parse ''./src/entities/user/@x/product.ts'') = ''./src/entities'' @ ''/'' @ ''user'' @ ''/@x'' \<and>
   join [''./src/entities'', ''user'', ''@x''] = ''src/entities/user/@x'' \<and>
   isCrossImportPublicApi (File ''./src/entities/user/@x/product.ts'')
     \<lparr>inSlice = ''user'', forSlice = ''product'', layerPath = ''./src/entities''\<rparr> = False"
  by code_simp

section \<open>Layers\<close>

text \<open>
  C6: for every Folder root, every entry of \<open>getLayers\<close> is a direct child of the root
  that is a Folder whose basename is one of the six layer names, keyed by that
  basename, so a File bearing a layer name is never included. Under a layer name the
  mapping holds the direct child Folder with that basename that comes last among the
  children; when layer basenames are unique among the children of the root, as the
  specification requires of a tree, the entries are exactly the direct child Folders
  whose basename is a layer name, each keyed by its basename.
\<close>

theorem getLayers_spec:
  assumes "k \<in> set layerSequence"
  shows "\<exists>ls. getLayers (Folder p cs) = Some ls \<and> distinct (map fst ls) \<and>
     list_all (\<lambda>(key, c). c \<in> set cs \<and> isFolder c \<and> key = basename (path c) \<and>
        key \<in> set layerSequence) ls \<and>
     map_of ls k = List.find (\<lambda>c. isFolder c \<and> basename (path c) = k) (rev cs) \<and>
     (distinct (map (\<lambda>c. basename (path c))
         (filter (\<lambda>c. isFolder c \<and> basename (path c) \<in> set layerSequence) cs)) \<longrightarrow>
      set ls = (\<lambda>c. (basename (path c), c)) `
         {c \<in> set cs. isFolder c \<and> basename (path c) \<in> set layerSequence})"
proof -
  let ?P = "\<lambda>c. isFolder c \<and> basename (path c) \<in> set layerSequence"
  let ?es = "map (\<lambda>c. (basename (path c), c)) (filter ?P cs)"
  let ?ls = "fromEntries ?es"
  have 1: "getLayers (Folder p cs) = Some ?ls"
    by (simp add: getLayers_def)
  have 2: "distinct (map fst ?ls)"
    by (rule distinct_fromEntries)
  have 3: "list_all (\<lambda>(key, c). c \<in> set cs \<and> isFolder c \<and> key = basename (path c) \<and>
        key \<in> set layerSequence) ?ls"
    using set_fromEntries[of ?es] by (auto simp add: list_all_iff)
  have "map_of ?ls k = List.find (\<lambda>c. ?P c \<and> basename (path c) = k) (rev cs)"
    by (rule map_of_fromEntries_keyed)
  also have "\<dots> = List.find (\<lambda>c. isFolder c \<and> basename (path c) = k) (rev cs)"
    using assms by (intro arg_cong2[where f = List.find] ext) auto
  finally have 4: "map_of ?ls k = List.find (\<lambda>c. isFolder c \<and> basename (path c) = k) (rev cs)" .
  have 5: "set ?ls = (\<lambda>c. (basename (path c), c)) ` {c \<in> set cs. ?P c}"
    if "distinct (map (\<lambda>c. basename (path c)) (filter ?P cs))"
  proof -
    have "map fst ?es = map (\<lambda>c. basename (path c)) (filter ?P cs)"
      by (simp add: comp_def)
    with that have "distinct (map fst ?es)" by (simp add: comp_def)
    then have "set ?ls = set ?es" by (rule set_fromEntries_distinct)
    then show ?thesis by auto
  qed
  from 1 2 3 4 5 show ?thesis by blast
qed

text \<open>
  A root with the folder \<open>pages\<close>, a file named \<open>app\<close> and the folder \<open>lib\<close>: the
  mapping holds \<open>pages\<close> and nothing else.
\<close>

theorem getLayers_spec_witness:
  "''pages'' \<in> set layerSequence \<and>
   (\<exists>ls. getLayers (Folder ''src'' [Folder ''src/pages'' [], File ''src/app'', Folder ''src/lib'' []]) = Some ls \<and>
      map_of ls ''pages'' = Some (Folder ''src/pages'' []) \<and>
      set ls = {(''pages'', Folder ''src/pages'' [])})"
proof -
  let ?cs = "[Folder ''src/pages'' [], File ''src/app'', Folder ''src/lib'' []]"
  let ?P = "\<lambda>c. isFolder c \<and> basename (path c) \<in> set layerSequence"
  have h: "''pages'' \<in> set layerSequence" by (simp add: layerSequence_def)
  have b: "basename ''src/pages'' = ''pages''" "basename ''src/app'' = ''app''"
    "basename ''src/lib'' = ''lib''"
    by (simp_all add: basename_def)
  have f: "filter ?P ?cs = [Folder ''src/pages'' []]"
    by (simp add: b layerSequence_def)
  have s: "{c \<in> set ?cs. ?P c} = {Folder ''src/pages'' []}"
    by (auto simp add: b layerSequence_def)
  have d: "distinct (map (\<lambda>c. basename (path c)) (filter ?P ?cs))"
    unfolding f by simp
  have g: "List.find (\<lambda>c. isFolder c \<and> basename (path c) = ''pages'') (rev ?cs) =
      Some (Folder ''src/pages'' [])"
    by (simp add: b)
  have i: "(\<lambda>c. (basename (path c), c)) ` {c \<in> set ?cs. ?P c} = {(''pages'', Folder ''src/pages'' [])}"
    unfolding s by (simp add: b)
  from getLayers_spec[OF h, of "''src''" ?cs]
  show ?thesis
    unfolding g i using h d by (elim exE conjE) (intro conjI exI, assumption+, blast)
qed

section \<open>Slices of all layers\<close>

text \<open>
  C7: let \<open>getLayers\<close> of the root return \<open>layers\<close>. Then \<open>getAllSlices\<close> returns a
  mapping that, under every name, holds what \<open>getSlices\<close> holds under that name for the
  last layer that has a slice of that name among the layers of \<open>layers\<close>, in their
  order, whose basename is neither \<open>shared\<close> nor \<open>app\<close>, paired with the basename of
  that layer as \<open>layerName\<close>; it holds nothing under a name that no such layer has. So
  the slices are those of exactly the sliced layers, and a slice-like folder of
  \<open>shared\<close> or \<open>app\<close> is not among them.
\<close>

theorem getAllSlices_spec:
  assumes "getLayers fsdRoot = Some layers"
  shows "\<exists>r. getAllSlices fsdRoot extras = Some r \<and>
     map_of r k =
       (case List.find (\<lambda>l. sliceOf extras l k \<noteq> None)
               (rev (filter (\<lambda>l. basename (path l) \<noteq> ''shared'' \<and> basename (path l) \<noteq> ''app'')
                  (map snd layers))) of
          None \<Rightarrow> None
        | Some l \<Rightarrow> map_option (\<lambda>f. (f, basename (path l))) (sliceOf extras l k))"
  using getAllSlices_char[OF assms, of extras]
  unfolding isSliced_LayerFolder values_of_getLayers[OF assms] by blast

text \<open>
  The slice name \<open>home\<close> arises in the layers \<open>pages\<close> and \<open>features\<close>; the entry of
  \<open>features\<close>, iterated last, is the one kept. The folder \<open>kit\<close> of the unsliced layer
  \<open>shared\<close> holds \<open>ui.ts\<close>, so \<open>getSlices\<close> of that layer would report it, and
  \<open>getAllSlices\<close> does not.
\<close>

theorem getAllSlices_spec_witness:
  "getLayers (Folder ''src''
      [Folder ''src/pages'' [Folder ''src/pages/home'' [Folder ''src/pages/home/ui'' []]],
       Folder ''src/shared'' [Folder ''src/shared/kit'' [File ''src/shared/kit/ui.ts'']],
       Folder ''src/features'' [Folder ''src/features/home'' [File ''src/features/home/model.ts'']]]) =
     Some [(''pages'', Folder ''src/pages'' [Folder ''src/pages/home'' [Folder ''src/pages/home/ui'' []]]),
           (''shared'', Folder ''src/shared'' [Folder ''src/shared/kit'' [File ''src/shared/kit/ui.ts'']]),
           (''features'', Folder ''src/features'' [Folder ''src/features/home'' [File ''src/features/home/model.ts'']])] \<and>
   getSlices (Folder ''src/shared'' [Folder ''src/shared/kit'' [File ''src/shared/kit/ui.ts'']]) [] =
     Some [(''kit'', Folder ''src/shared/kit'' [File ''src/shared/kit/ui.ts''])] \<and>
   (\<exists>r. getAllSlices (Folder ''src''
      [Folder ''src/pages'' [Folder ''src/pages/home'' [Folder ''src/pages/home/ui'' []]],
       Folder ''src/shared'' [Folder ''src/shared/kit'' [File ''src/shared/kit/ui.ts'']],
       Folder ''src/features'' [Folder ''src/features/home'' [File ''src/features/home/model.ts'']]]) [] = Some r \<and>
      map_of r ''home'' =
        Some (Folder ''src/features/home'' [File ''src/features/home/model.ts''], ''features'') \<and>
      map_of r ''kit'' = None)"
proof -
  let ?pages = "Folder ''src/pages'' [Folder ''src/pages/home'' [Folder ''src/pages/home/ui'' []]]"
  let ?shared = "Folder ''src/shared'' [Folder ''src/shared/kit'' [File ''src/shared/kit/ui.ts'']]"
  let ?features = "Folder ''src/features'' [Folder ''src/features/home'' [File ''src/features/home/model.ts'']]"
  let ?R = "Folder ''src'' [?pages, ?shared, ?features]"
  let ?L = "[(''pages'', ?pages), (''shared'', ?shared), (''features'', ?features)]"
  have h: "getLayers ?R = Some ?L" by code_simp
  have g: "getSlices ?shared [] =
      Some [(''kit'', Folder ''src/shared/kit'' [File ''src/shared/kit/ui.ts''])]"
    by code_simp
  have v: "(case List.find (\<lambda>l. sliceOf [] l ''home'' \<noteq> None)
               (rev (filter (\<lambda>l. basename (path l) \<noteq> ''shared'' \<and> basename (path l) \<noteq> ''app'')
                  (map snd ?L))) of
          None \<Rightarrow> None
        | Some l \<Rightarrow> map_option (\<lambda>f. (f, basename (path l))) (sliceOf [] l ''home'')) =
        Some (Folder ''src/features/home'' [File ''src/features/home/model.ts''], ''features'')"
    by code_simp
  have w: "(case List.find (\<lambda>l. sliceOf [] l ''kit'' \<noteq> None)
               (rev (filter (\<lambda>l. basename (path l) \<noteq> ''shared'' \<and> basename (path l) \<noteq> ''app'')
                  (map snd ?L))) of
          None \<Rightarrow> None
        | Some l \<Rightarrow> map_option (\<lambda>f. (f, basename (path l))) (sliceOf [] l ''kit'')) = None"
    by code_simp
  from getAllSlices_spec[OF h, of "[]" "''home''"] getAllSlices_spec[OF h, of "[]" "''kit''"]
  show ?thesis unfolding v w using h g by auto
qed

section \<open>Totality\<close>

text \<open>
  On a tree of ordinary, unfrozen objects: on every Folder the operations that read
  \<^verbatim>\<open>children\<close> (\<open>getLayers\<close>, \<open>getSlices\<close>, \<open>getAllSlices\<close>, \<open>getSegments\<close>,
  \<open>getAllSegments\<close>, \<open>isSlice\<close>) return a result and do not throw, \<open>getSlices\<close> also on
  the object with its prototype; the recursion of \<open>traverse\<close> is on the children of its
  argument, so it ends on every tree. \<open>getIndexes\<close>, \<open>isIndex\<close>, \<open>isSliced\<close> and
  \<open>isCrossImportPublicApi\<close> read only \<^verbatim>\<open>type\<close> and \<^verbatim>\<open>path\<close>, which every node has,
  and are total functions of the model. Where nothing matches, the result is the empty
  mapping, the empty list or false.
\<close>

lemma strictGetSlices_unfrozen_total:
  "\<exists>ob. strictGetSlices False (Folder p cs) extras = Some ob \<and>
        getSlices (Folder p cs) extras = Some (ownProps ob)"
proof -
  have "getSlices (Folder p cs) extras \<noteq> None"
    by (simp add: getSlices_recorded)
  with strictGetSlices_unfrozen[of "Folder p cs" extras] show ?thesis
    by (cases "strictGetSlices False (Folder p cs) extras") auto
qed

lemma classifier_total_unfrozen:
  "(\<exists>ls. getLayers (Folder p cs) = Some ls) \<and>
   (\<exists>s. getSlices (Folder p cs) extras = Some s) \<and>
   (\<exists>a. getAllSlices (Folder p cs) extras = Some a) \<and>
   (\<exists>g. getSegments (Folder p cs) = Some g) \<and>
   (\<exists>gs. getAllSegments (Folder p cs) = Some gs) \<and>
   (\<exists>b. isSlice (Folder p cs) extras = Some b) \<and>
   (\<not> list_ex (\<lambda>c. isFolder c \<and> basename (path c) \<in> set layerSequence) cs \<longrightarrow>
      getLayers (Folder p cs) = Some [] \<and> getAllSlices (Folder p cs) extras = Some [] \<and>
      getAllSegments (Folder p cs) = Some []) \<and>
   (sliceSites (Folder p cs) extras = [] \<longrightarrow> getSlices (Folder p cs) extras = Some []) \<and>
   (\<not> list_ex isFolder cs \<longrightarrow> getSlices (Folder p cs) extras = Some []) \<and>
   (list_all isIndex cs \<longrightarrow> getSegments (Folder p cs) = Some []) \<and>
   (\<not> list_ex isIndex cs \<longrightarrow> getIndexes (Folder p cs) = []) \<and>
   (\<not> list_ex (\<lambda>c. name (parse (path c)) \<in> set (conventionalSegmentNames @ extras)) cs \<longrightarrow>
      isSlice (Folder p cs) extras = Some False) \<and>
   isIndex (Folder p cs) = False \<and>
   getIndexes (File q) = [File q] \<and>
   isSliced (LayerFolder (Folder p cs)) = isSliced (LayerName p) \<and>
   (name (parse (path f)) \<noteq> forSlice opts \<longrightarrow> isCrossImportPublicApi f opts = False)"
proof -
  let ?R = "Folder p cs"
  have 1: "\<exists>ls. getLayers ?R = Some ls"
    by (simp add: getLayers_def)
  have 2: "\<exists>s. getSlices ?R extras = Some s"
    by (simp add: getSlices_recorded)
  from 1 obtain ls where ls: "getLayers ?R = Some ls" by blast
  have 3: "\<exists>a. getAllSlices ?R extras = Some a"
    using getAllSlices_char[OF ls, of extras] by blast
  have 4: "\<exists>g. getSegments ?R = Some g"
    by (simp add: getSegments_Folder)
  have 5: "\<exists>gs. getAllSegments ?R = Some gs"
    using ls by (rule getAllSegments_total)
  have 6: "\<exists>b. isSlice ?R extras = Some b"
    by (simp add: isSlice_Folder)
  have 7: "getLayers ?R = Some [] \<and> getAllSlices ?R extras = Some [] \<and> getAllSegments ?R = Some []"
    if "\<not> list_ex (\<lambda>c. isFolder c \<and> basename (path c) \<in> set layerSequence) cs"
  proof -
    from that have "filter (\<lambda>c. isFolder c \<and> basename (path c) \<in> set layerSequence) cs = []"
      by (simp add: list_ex_iff filter_empty_conv)
    then have l: "getLayers ?R = Some []"
      by (simp add: getLayers_def fromEntries_def)
    have e: "entries ([] :: node obj) = []" by (simp add: entries_def)
    from l e show ?thesis
      by (simp add: getAllSlices_def getAllSegments_def values_of_def)
  qed
  have 8: "getSlices ?R extras = Some []" if "sliceSites ?R extras = []"
    using that getSlices_recorded[of ?R extras] by (simp add: recorded_def)
  have 9: "getSlices ?R extras = Some []" if "\<not> list_ex isFolder cs"
  proof -
    from that have "sliceSites ?R extras = []"
      by (simp add: sliceSites_def sitesOfChildren_no_folder)
    then show ?thesis by (rule 8)
  qed
  have 10: "getSegments ?R = Some []" if "list_all isIndex cs"
  proof -
    from that have "filter (\<lambda>c. \<not> isIndex c) cs = []"
      by (simp add: list_all_iff filter_empty_conv)
    then show ?thesis by (simp add: getSegments_def fromEntries_def)
  qed
  have 11: "getIndexes ?R = []" if "\<not> list_ex isIndex cs"
    using that by (simp add: getIndexes_def list_ex_iff filter_empty_conv)
  have 12: "isSlice ?R extras = Some False"
    if "\<not> list_ex (\<lambda>c. name (parse (path c)) \<in> set (conventionalSegmentNames @ extras)) cs"
    using that by (simp only: isSlice_Folder)
  have 13: "isIndex ?R = False"
    by (simp add: isIndex_def)
  have 14: "isCrossImportPublicApi f opts = False" if "name (parse (path f)) \<noteq> forSlice opts"
    using that by (simp add: isCrossImportPublicApi_def)
  have 15: "getIndexes (File q) = [File q]"
    by (simp add: getIndexes_def)
  have 16: "isSliced (LayerFolder ?R) = isSliced (LayerName p)"
    by (simp add: isSliced_def)
  from 1 2 3 4 5 6 7 8 9 10 11 12 13 14 15 16 show ?thesis by blast
qed

text \<open>
  A folder that holds only \<open>index.ts\<close> has no layer, no slice and no segment, and is
  not a slice; a folder that holds only \<open>a.ts\<close> has no index; a file named
  \<open>product.ts\<close> is no cross-import public API for the slice \<open>cart\<close>.
\<close>

lemma classifier_total_unfrozen_example:
  "getLayers (Folder ''src'' [File ''src/index.ts'']) = Some [] \<and>
   getAllSlices (Folder ''src'' [File ''src/index.ts'']) [] = Some [] \<and>
   getAllSegments (Folder ''src'' [File ''src/index.ts'']) = Some [] \<and>
   getSlices (Folder ''src'' [File ''src/index.ts'']) [] = Some [] \<and>
   getSegments (Folder ''src'' [File ''src/index.ts'']) = Some [] \<and>
   isSlice (Folder ''src'' [File ''src/index.ts'']) [] = Some False \<and>
   getIndexes (Folder ''src'' [File ''src/a.ts'']) = [] \<and>
   isCrossImportPublicApi (File ''src/entities/user/@x/product.ts'')
     \<lparr>inSlice = ''user'', forSlice = ''cart'', layerPath = ''src/entities''\<rparr> = False"
proof -
  let ?cs = "[File ''src/index.ts'']"
  let ?f = "File ''src/entities/user/@x/product.ts''"
  let ?o = "\<lparr>inSlice = ''user'', forSlice = ''cart'', layerPath = ''src/entities''\<rparr>"
  have a: "\<not> list_ex (\<lambda>c. isFolder c \<and> basename (path c) \<in> set layerSequence) ?cs" by simp
  have b: "\<not> list_ex isFolder ?cs" by simp
  have c: "list_all isIndex ?cs" by code_simp
  have d: "\<not> list_ex (\<lambda>c. name (parse (path c)) \<in> set (conventionalSegmentNames @ [])) ?cs"
    by code_simp
  have e: "\<not> list_ex isIndex [File ''src/a.ts'']" by code_simp
  have g: "name (parse (path ?f)) \<noteq> forSlice ?o" by code_simp
  from classifier_total_unfrozen[of "''src''" ?cs "[]" _ ?f ?o] a b c d g
  have 1: "getLayers (Folder ''src'' ?cs) = Some [] \<and>
   getAllSlices (Folder ''src'' ?cs) [] = Some [] \<and>
   getAllSegments (Folder ''src'' ?cs) = Some [] \<and>
   getSlices (Folder ''src'' ?cs) [] = Some [] \<and>
   getSegments (Folder ''src'' ?cs) = Some [] \<and>
   isSlice (Folder ''src'' ?cs) [] = Some False \<and>
   isCrossImportPublicApi ?f ?o = False"
    by blast
  from classifier_total_unfrozen[of "''src''" "[File ''src/a.ts'']" "[]" _ ?f ?o] e
  have 2: "getIndexes (Folder ''src'' [File ''src/a.ts'']) = []"
    by blast
  from 1 2 show ?thesis by blast
qed

text \<open>
  C8: \<open>getSlices\<close> throws on a well-typed tree whose objects are frozen. The layer
  \<open>src/pages\<close> holds the folders \<open>__proto__\<close> and \<open>path\<close>, each with a folder \<open>ui\<close>, so
  both satisfy \<open>isSlice\<close>. The assignment \<^verbatim>\<open>slices['__proto__'] = folder\<close> makes the
  first folder the prototype of \<^verbatim>\<open>slices\<close>; the assignment \<^verbatim>\<open>slices['path'] = folder\<close>
  then finds the property \<^verbatim>\<open>path\<close> of that frozen folder on the prototype chain and
  throws a TypeError, and with \<open>getSlices\<close> so do \<open>getAllSlices\<close> and \<open>getAllSegments\<close>,
  which call it on every sliced layer. On the same tree with unfrozen objects
  \<open>getSlices\<close> returns, with \<open>path\<close> as the only own property of the result.
\<close>

theorem getSlices_throws_on_frozen_tree:
  "isSlice (Folder ''src/pages/__proto__'' [Folder ''src/pages/__proto__/ui'' []]) [] = Some True \<and>
   isSlice (Folder ''src/pages/path'' [Folder ''src/pages/path/ui'' []]) [] = Some True \<and>
   strictAssign True ''__proto__''
       (Folder ''src/pages/__proto__'' [Folder ''src/pages/__proto__/ui'' []])
       \<lparr>prototype = None, ownProps = []\<rparr> =
     Some \<lparr>prototype = Some (Folder ''src/pages/__proto__'' [Folder ''src/pages/__proto__/ui'' []]),
           ownProps = []\<rparr> \<and>
   strictAssign True ''path''
       (Folder ''src/pages/path'' [Folder ''src/pages/path/ui'' []])
       \<lparr>prototype = Some (Folder ''src/pages/__proto__'' [Folder ''src/pages/__proto__/ui'' []]),
        ownProps = []\<rparr> = None \<and>
   strictGetSlices True
       (Folder ''src/pages''
          [Folder ''src/pages/__proto__'' [Folder ''src/pages/__proto__/ui'' []],
           Folder ''src/pages/path'' [Folder ''src/pages/path/ui'' []]]) [] = None \<and>
   strictGetSlices False
       (Folder ''src/pages''
          [Folder ''src/pages/__proto__'' [Folder ''src/pages/__proto__/ui'' []],
           Folder ''src/pages/path'' [Folder ''src/pages/path/ui'' []]]) [] =
     Some \<lparr>prototype = Some (Folder ''src/pages/__proto__'' [Folder ''src/pages/__proto__/ui'' []]),
           ownProps = [(''path'', Folder ''src/pages/path'' [Folder ''src/pages/path/ui'' []])]\<rparr>"
  by code_simp

section \<open>Resolving an import\<close>

text \<open>
  C9: with \<open>baseUrl = .\<close>, \<open>paths = {~/*: [./src/*]}\<close> and a probe that accepts exactly
  \<open>src/shared/ui/index.ts\<close>, the specifier \<open>~/shared/ui\<close> imported from
  \<open>src/pages/home/ui/HomePage.tsx\<close> resolves to \<open>src/shared/ui/index.ts\<close>.
\<close>

theorem resolveImport_basic:
  "resolveImport ''~/shared/ui'' ''src/pages/home/ui/HomePage.tsx''
     \<lparr>baseUrl = ''.'', paths = [(''~/*'', [''./src/*''])]\<rparr>
     (\<lambda>p. p = ''src/shared/ui/index.ts'') = Some ''src/shared/ui/index.ts''"
  by code_simp

section \<open>The two versions of \<^verbatim>\<open>getSlices\<close>\<close>

lemma segment_name_versions:
  assumes "t \<noteq> []" "hd t \<noteq> CHR ''.''"
  shows "withoutExtension (basename q) = t \<longleftrightarrow> name (parse q) = t"
  using name_vs_withoutExtension[of q] assms by auto

lemma isSlice_v1_eq:
  assumes "list_all (\<lambda>e. e \<noteq> [] \<and> hd e \<noteq> CHR ''.'') extras"
  shows "isSlice_v1 n extras = isSlice n extras"
proof -
  have ok: "t \<noteq> [] \<and> hd t \<noteq> CHR ''.''" if "t \<in> set (conventionalSegmentNames @ extras)" for t
    using that assms by (auto simp add: conventionalSegmentNames_def list_all_iff)
  have eq: "(withoutExtension (basename q) \<in> set (conventionalSegmentNames @ extras)) =
        (name (parse q) \<in> set (conventionalSegmentNames @ extras))" for q
    using ok segment_name_versions[of _ q] by metis
  show ?thesis
    unfolding isSlice_v1_def isSlice_def eq by (rule refl)
qed

lemma traverse_v1_eq:
  assumes "list_all (\<lambda>e. e \<noteq> [] \<and> hd e \<noteq> CHR ''.'') extras"
  shows "traverse_v1 extras n prefix ob = traverse extras n prefix ob"
    and "forEachChild_v1 extras cs prefix ob = forEachChild extras cs prefix ob"
  using assms
proof (induction extras n prefix ob and extras cs prefix ob rule: traverse_forEachChild.induct)
  case (1 extras p pathPrefix slices)
  show ?case by simp
next
  case (2 extras p cs pathPrefix slices)
  show ?case
  proof (cases "isSlice (Folder p cs) extras")
    case None
    then show ?thesis using 2 by (simp add: isSlice_v1_eq)
  next
    case (Some b)
    then show ?thesis using 2 by (cases b) (simp_all add: isSlice_v1_eq)
  qed
next
  case (3 extras prefix slices)
  show ?case by simp
next
  case (4 extras child rest prefix slices)
  then show ?case by (simp split: option.splits)
qed

text \<open>
  C10, as amended: for every node and every list of additional segment names in which no
  name is empty or starts with a dot (the default empty list among them), the earlier
  \<open>getSlices\<close>, which strips the extension with \<open>withoutExtension\<close> of the basename, and
  the later one, which uses \<^verbatim>\<open>parse(child.path).name\<close>, return the same mapping.
\<close>

theorem getSlices_versions_agree:
  assumes "list_all (\<lambda>e. e \<noteq> [] \<and> hd e \<noteq> CHR ''.'') extras"
  shows "getSlices_v1 layer extras = getSlices layer extras"
  using assms by (simp add: getSlices_v1_def getSlices_def traverse_v1_eq split: option.splits)

text \<open>
  With the additional segment name \<open>.env\<close> a folder that holds the file \<open>.env\<close> is a
  slice for the later version (\<^verbatim>\<open>parse\<close> gives the name \<open>.env\<close>) and not for the earlier
  one (\<open>withoutExtension\<close> gives the empty string).
\<close>

theorem getSlices_versions_differ:
  "getSlices (Folder ''pages'' [Folder ''pages/home'' [File ''pages/home/.env'']]) [''.env''] =
     Some [(''home'', Folder ''pages/home'' [File ''pages/home/.env''])] \<and>
   getSlices_v1 (Folder ''pages'' [Folder ''pages/home'' [File ''pages/home/.env'']]) [''.env''] =
     Some []"
  by code_simp

theorem getSlices_versions_agree_witness:
  "list_all (\<lambda>e. e \<noteq> [] \<and> hd e \<noteq> CHR ''.'') [''routes''] \<and>
   getSlices_v1 (Folder ''pages'' [Folder ''pages/home'' [File ''pages/home/routes.ts'']]) [''routes''] =
     Some [(''home'', Folder ''pages/home'' [File ''pages/home/routes.ts''])] \<and>
   getSlices (Folder ''pages'' [Folder ''pages/home'' [File ''pages/home/routes.ts'']]) [''routes''] =
     Some [(''home'', Folder ''pages/home'' [File ''pages/home/routes.ts''])]"
proof -
  have h: "list_all (\<lambda>e. e \<noteq> [] \<and> hd e \<noteq> CHR ''.'') [''routes'']" by simp
  have v: "getSlices (Folder ''pages'' [Folder ''pages/home'' [File ''pages/home/routes.ts'']]) [''routes''] =
     Some [(''home'', Folder ''pages/home'' [File ''pages/home/routes.ts''])]"
    by code_simp
  from h v getSlices_versions_agree[OF h, of "Folder ''pages'' [Folder ''pages/home'' [File ''pages/home/routes.ts'']]"]
  show ?thesis by simp
qed

end
